theory Spec2Isabelle
  imports Main "HOL-Library.Char_ord" "HOL-Library.List_Lexorder"
begin

section \<open>Data model\<close>

text \<open>
  The rule classes (Substitution, Positioning, Attachment, Chaining) and the class Routine
  live in the package's top-level module, which the lowering code imports. The model keeps
  the attributes that the lowering code under \<^verbatim>\<open>feaLib/\<close> reads or writes.

  \<^item> \<^verbatim>\<open>sub_lookup_type(rule)\<close> and \<^verbatim>\<open>pos_lookup_type(rule)\<close> are classifiers of
    \<^verbatim>\<open>fontFeatures.ttLib\<close>; a Substitution or Positioning rule carries the integer that
    its classifier computes from it (first field).
  \<^item> An Attachment rule carries \<^verbatim>\<open>is_cursive\<close>; every rule carries \<^verbatim>\<open>flags\<close>.
  \<^item> A Chaining rule carries three sequences of glyph classes (lists of glyph names) and
    \<^verbatim>\<open>lookups\<close>: per input position either \<^verbatim>\<open>None\<close> or a list whose entries are
    routines or \<^verbatim>\<open>None\<close>.
  \<^item> A routine has a name (\<^verbatim>\<open>None\<close> or a string), its rules, \<^verbatim>\<open>flags\<close> (absent
    until set), \<^verbatim>\<open>languages\<close> (\<^verbatim>\<open>None\<close> or a list of script/language pairs) and
    comments.
\<close>

datatype rule =
    Substitution (lookup_tag: int) (rule_flags: int)
  | Positioning (lookup_tag: int) (rule_flags: int)
  | Attachment (is_cursive: bool) (rule_flags: int)
  | Chaining (the_chaining: chaining)
and chaining =
    Chain (precontext: "string list list") (input: "string list list")
      (postcontext: "string list list") (lookups: "routine option list option list")
      (chain_flags: int)
and routine =
    Routine (name: "string option") (rules: "rule list") (flags: "int option")
      (languages: "(string \<times> string) list option") (comments: "string list")

text \<open>\<^verbatim>\<open>r.flags\<close> for any rule.\<close>

fun flags_of :: "rule \<Rightarrow> int" where
  "flags_of (Chaining c) = chain_flags c"
| "flags_of r = rule_flags r"

text \<open>
  Modelled from the spec: the constructor of Routine (its class is not among the lowering
  sources). \<^verbatim>\<open>Routine(rules = v)\<close> gives a group with the rules \<open>v\<close>, no name, no flags,
  no languages and no comments; keyword arguments set the corresponding field.
\<close>

definition Routine_init :: "rule list \<Rightarrow> routine" where
  "Routine_init v = Routine None v None None []"

definition set_name :: "string option \<Rightarrow> routine \<Rightarrow> routine" where
  "set_name n r = Routine n (rules r) (flags r) (languages r) (comments r)"

definition set_flags :: "int option \<Rightarrow> routine \<Rightarrow> routine" where
  "set_flags f r = Routine (name r) (rules r) f (languages r) (comments r)"

definition set_languages :: "(string \<times> string) list option \<Rightarrow> routine \<Rightarrow> routine" where
  "set_languages l r = Routine (name r) (rules r) (flags r) l (comments r)"

text \<open>Python exceptions that the modelled code can raise.\<close>

datatype error = TypeError | AttributeError | KeyError | NameError

subsection \<open>Python values used as dictionary keys\<close>

text \<open>
  \<^verbatim>\<open>type(r)\<close>: the class of a rule.
\<close>

datatype rule_type = TSubstitution | TPositioning | TAttachment | TChaining

fun type_of :: "rule \<Rightarrow> rule_type" where
  "type_of (Substitution _ _) = TSubstitution"
| "type_of (Positioning _ _) = TPositioning"
| "type_of (Attachment _ _) = TAttachment"
| "type_of (Chaining _) = TChaining"

text \<open>
  The value of \<^verbatim>\<open>lookup_type(rule)\<close> is an \<^verbatim>\<open>int\<close> or a \<^verbatim>\<open>bool\<close>. Python compares
  and hashes a \<^verbatim>\<open>bool\<close> as the integer 0 or 1, so \<^verbatim>\<open>True == 1\<close> and both are the same
  dictionary key; \<^verbatim>\<open>str\<close> tells them apart.
\<close>

datatype pykey = KInt int | KBool bool

fun key_int :: "pykey \<Rightarrow> int" where
  "key_int (KInt i) = i"
| "key_int (KBool b) = (if b then 1 else 0)"

definition py_eq :: "pykey \<Rightarrow> pykey \<Rightarrow> bool" where
  "py_eq a b = (key_int a = key_int b)"

definition digit_char :: "nat \<Rightarrow> char" where
  "digit_char d = ''0123456789'' ! d"

fun str_nat :: "nat \<Rightarrow> string" where
  "str_nat n = (if n < 10 then [digit_char n] else str_nat (n div 10) @ [digit_char (n mod 10)])"

declare str_nat.simps [simp del]

definition str_int :: "int \<Rightarrow> string" where
  "str_int i = (if i < 0 then CHR ''-'' # str_nat (nat (- i)) else str_nat (nat i))"

fun str_key :: "pykey \<Rightarrow> string" where
  "str_key (KInt i) = str_int i"
| "str_key (KBool b) = (if b then ''True'' else ''False'')"

text \<open>Truthiness of a name: \<^verbatim>\<open>None\<close> and the empty string are false.\<close>

fun truthy_name :: "string option \<Rightarrow> bool" where
  "truthy_name None = False"
| "truthy_name (Some s) = (s \<noteq> [])"

text \<open>Truthiness of what a splitting pass returns: \<^verbatim>\<open>None\<close> and \<^verbatim>\<open>[]\<close> are false.\<close>

fun truthy_split :: "routine list option \<Rightarrow> bool" where
  "truthy_split None = False"
| "truthy_split (Some rs) = (rs \<noteq> [])"

subsection \<open>Dictionaries of buckets\<close>

text \<open>
  A Python \<^verbatim>\<open>dict\<close> keeps its keys in insertion order, and a key is found by \<^verbatim>\<open>==\<close>.
  The passes below all use
  \<^verbatim>\<open>if not k in d: d[k] = []\<close> followed by \<^verbatim>\<open>d[k].append(r)\<close> or \<^verbatim>\<open>d[k].extend(rs)\<close>;
  \<open>dict_extend eq k vs d\<close> is that step, with \<open>eq\<close> the equality of the keys. The key
  object stored is the one that was inserted first.
\<close>

fun dict_extend :: "('k \<Rightarrow> 'k \<Rightarrow> bool) \<Rightarrow> 'k \<Rightarrow> 'v list \<Rightarrow> ('k \<times> 'v list) list \<Rightarrow> ('k \<times> 'v list) list" where
  "dict_extend eq k vs [] = [(k, vs)]"
| "dict_extend eq k vs ((k', ws) # d) =
     (if eq k' k then (k', ws @ vs) # d else (k', ws) # dict_extend eq k vs d)"

definition bucket_by :: "('k \<Rightarrow> 'k \<Rightarrow> bool) \<Rightarrow> ('v \<Rightarrow> 'k) \<Rightarrow> 'v list \<Rightarrow> ('k \<times> 'v list) list" where
  "bucket_by eq key xs = foldl (\<lambda>d r. dict_extend eq (key r) [r] d) [] xs"

section \<open>Routine.py: arranging a routine into homogeneous routines\<close>

fun lookup_type :: "rule \<Rightarrow> pykey" where
  "lookup_type (Substitution t _) = KInt t"
| "lookup_type (Positioning t _) = KInt t"
| "lookup_type (Attachment c _) = KBool c"
| "lookup_type (Chaining _) = KInt 1"

text \<open>
  \<^verbatim>\<open>arrange_by_type\<close>. The loop over the buckets builds a routine \<open>r\<close> for each bucket and
  never appends it to \<open>routines\<close>; naming it evaluates \<^verbatim>\<open>self.name + "_" + k\<close> with
  \<open>k\<close> a class, which raises \<^verbatim>\<open>TypeError\<close>.
\<close>

fun arrange_by_type_loop :: "routine \<Rightarrow> (rule_type \<times> rule list) list \<Rightarrow> routine list \<Rightarrow> error + routine list" where
  "arrange_by_type_loop self [] routines = Inr routines"
| "arrange_by_type_loop self ((k, v) # kvs) routines =
     (let r = Routine_init v in
      if truthy_name (name self) then Inl TypeError
      else arrange_by_type_loop self kvs routines)"

definition arrange_by_type :: "routine \<Rightarrow> error + routine list option" where
  "arrange_by_type self =
     (let ruleTypes = bucket_by (=) type_of (rules self) in
      if length ruleTypes = 1 then Inr None
      else (case arrange_by_type_loop self ruleTypes [] of
              Inl e \<Rightarrow> Inl e
            | Inr routines \<Rightarrow> Inr (Some routines)))"

text \<open>\<^verbatim>\<open>tuple(ruleTypes.keys()) == (1,2)\<close>: the keys in insertion order, compared one by one.\<close>

fun keys_are_1_2 :: "pykey list \<Rightarrow> bool" where
  "keys_are_1_2 [a, b] = (py_eq a (KInt 1) \<and> py_eq b (KInt 2))"
| "keys_are_1_2 _ = False"

definition name_child :: "routine \<Rightarrow> string \<Rightarrow> routine \<Rightarrow> routine" where
  "name_child self suffix r =
     (if truthy_name (name self) then set_name (Some (the (name self) @ ''_'' @ suffix)) r else r)"

definition arrange_by_lookup_type :: "routine \<Rightarrow> routine list option" where
  "arrange_by_lookup_type self =
     (let ruleTypes = bucket_by py_eq lookup_type (rules self) in
      if length ruleTypes = 1 then None
      else if keys_are_1_2 (map fst ruleTypes) then None
      else Some (map (\<lambda>(k, v). name_child self (str_key k) (Routine_init v)) ruleTypes))"

text \<open>\<^verbatim>\<open>arrange_by_flags\<close> returns its result and the routine, whose flags it may set.\<close>

definition arrange_by_flags :: "routine \<Rightarrow> routine list option \<times> routine" where
  "arrange_by_flags self =
     (let flagTypes = bucket_by (=) flags_of (rules self) in
      if length flagTypes = 1 then (None, set_flags (Some (fst (hd flagTypes))) self)
      else (Some (map (\<lambda>(k, v). name_child self (str_int k) (set_flags (Some k) (Routine_init v)))
                    flagTypes), self))"

text \<open>The loop of \<^verbatim>\<open>arrange_by_language\<close>: language \<^verbatim>\<open>"*"\<close> is filed under \<^verbatim>\<open>"dflt"\<close>.\<close>

definition expand_lang :: "string \<times> string \<Rightarrow> string \<times> string" where
  "expand_lang p = (if snd p = ''*'' then (fst p, ''dflt'') else p)"

definition language_buckets :: "routine \<Rightarrow> (string \<times> string) list \<Rightarrow> ((string \<times> string) \<times> rule list) list" where
  "language_buckets self ls =
     foldl (\<lambda>d p. dict_extend (=) (expand_lang p) (rules self) d) [] ls"

definition arrange_by_language :: "routine \<Rightarrow> routine list option" where
  "arrange_by_language self =
     (case languages self of
        None \<Rightarrow> None
      | Some ls \<Rightarrow>
          if ls = [] then None
          else (let languages = language_buckets self ls in
                if length languages < 2 then None
                else Some (map (\<lambda>(k, v). name_child self (fst k @ ''_'' @ snd k)
                                  (set_languages (Some [k]) (Routine_init v))) languages)))"

definition arrange :: "routine \<Rightarrow> (error + routine list option) \<times> routine" where
  "arrange self =
     (case arrange_by_type self of
        Inl e \<Rightarrow> (Inl e, self)
      | Inr splitType \<Rightarrow>
          if truthy_split splitType then (Inr splitType, self)
          else (let splitType = arrange_by_lookup_type self in
            if truthy_split splitType then (Inr splitType, self)
            else (let splitLang = arrange_by_language self in
              if truthy_split splitLang then (Inr splitLang, self)
              else (let (splitFlags, self') = arrange_by_flags self in
                if truthy_split splitFlags then (Inr splitFlags, self')
                else (Inr None, self')))))"

text \<open>
  For the statements about \<^verbatim>\<open>arrange_by_language\<close>: the keys of a dictionary filled from
  \<open>xs\<close> are the distinct elements of \<open>xs\<close> in the order of their first occurrence, and
  the language scopes of a routine are its pairs with \<^verbatim>\<open>"*"\<close> expanded.
\<close>

definition first_seen :: "'a list \<Rightarrow> 'a list" where
  "first_seen xs = rev (remdups (rev xs))"

definition language_scopes :: "routine \<Rightarrow> (string \<times> string) list" where
  "language_scopes self = (case languages self of None \<Rightarrow> [] | Some ls \<Rightarrow> map expand_lang ls)"

section \<open>Chaining.py: lowering a chaining rule\<close>

text \<open>
  The module constant \<^verbatim>\<open>EXPERIMENTAL_FONTTOOLS\<close> is \<^verbatim>\<open>False\<close>; the model follows
  the branches taken under that value.
\<close>

subsection \<open>Statements\<close>

datatype glyph = GlyphName string | GlyphClass "glyph list"

text \<open>
  The statements of \<^verbatim>\<open>fontTools.feaLib.ast\<close> that the two modules build.
  \<open>RuleStatement r\<close> stands for the statement that the class of a Substitution,
  Positioning or Attachment rule \<open>r\<close> gives for it.
\<close>

datatype stmt =
    ChainContextSubstStatement "glyph list" "glyph list" "glyph list" "routine option list"
  | ChainContextPosStatement "glyph list" "glyph list" "glyph list" "routine option list"
  | IgnoreSubstStatement "glyph list list list"
  | Comment string
  | ScriptStatement string
  | LanguageStatement string
  | LookupFlagStatement int
  | LookupBlock string "stmt list"
  | Block "stmt list"
  | RuleStatement rule

definition glyphref :: "string list \<Rightarrow> glyph" where
  "glyphref g = (if length g = 1 then GlyphName (g ! 0) else GlyphClass (map GlyphName g))"

subsection \<open>Session state and collaborators\<close>

text \<open>
  The container \<open>ff\<close>: the entries \<^verbatim>\<open>"index"\<close>, \<^verbatim>\<open>"glyphclasses"\<close> and
  \<^verbatim>\<open>"synthesised_lookups"\<close> of \<^verbatim>\<open>ff.scratch\<close> (\<open>None\<close> while the key is not in the
  dictionary) and \<^verbatim>\<open>ff.namedClasses\<close>. The key of the glyph class cache is
  \<^verbatim>\<open>tuple(sorted(gc))\<close>.
\<close>

record session =
  scratch_index :: "int option"
  scratch_glyphclasses :: "(string list \<rightharpoonup> string) option"
  scratch_synthesised_lookups :: "(string \<rightharpoonup> routine) option"
  namedClasses :: "string \<rightharpoonup> string list"

text \<open>
  What the lowering calls and this module does not define:
  \<^verbatim>\<open>MergeNonOverlappingRoutines().compatibleRules(a, b)\<close>,
  \<^verbatim>\<open>Optimizer().optimize_routine(r)\<close> (which works on \<open>r\<close> in place; here it returns the
  routine as it leaves it), \<^verbatim>\<open>ff.markRoutineUseInChains()\<close>, and the serialisation of a
  routine, \<^verbatim>\<open>r.asFeaAST()\<close> (it returns the statement or the exception, and \<open>r\<close> as it
  leaves it). The serialisation is \<^verbatim>\<open>asFeaAST\<close> of Routine.py, modelled further down as
  \<open>Routine_asFeaAST\<close>; it is passed in here because it depends on the statements of the
  rule classes, and what is proved of \<open>feaPreamble\<close> holds whatever it does.
\<close>

record 'b externals =
  compatibleRules :: "routine \<Rightarrow> routine \<Rightarrow> bool"
  optimize_routine :: "routine \<Rightarrow> routine"
  markRoutineUseInChains :: "session \<Rightarrow> session"
  routine_asFeaAST :: "routine \<Rightarrow> (error + 'b) \<times> routine"

definition set_lookups :: "routine option list option list \<Rightarrow> chaining \<Rightarrow> chaining" where
  "set_lookups l c = Chain (precontext c) (input c) (postcontext c) l (chain_flags c)"

definition set_input :: "string list list \<Rightarrow> chaining \<Rightarrow> chaining" where
  "set_input i c = Chain (precontext c) i (postcontext c) (lookups c) (chain_flags c)"

definition set_precontext :: "string list list \<Rightarrow> chaining \<Rightarrow> chaining" where
  "set_precontext i c = Chain i (input c) (postcontext c) (lookups c) (chain_flags c)"

definition set_postcontext :: "string list list \<Rightarrow> chaining \<Rightarrow> chaining" where
  "set_postcontext i c = Chain (precontext c) (input c) i (lookups c) (chain_flags c)"

subsection \<open>suborpos\<close>

text \<open>
  \<open>suborpos\<close> returns from inside its loops at the first rule of the first routine that
  has a rule; \<open>suborpos_list\<close> gives \<open>Some v\<close> when the function returned \<open>v\<close> while
  scanning one position and \<open>None\<close> when the scan of that position fell through.
\<close>

function (sequential) suborpos :: "routine option list option list \<Rightarrow> string option"
  and suborpos_list :: "routine option list \<Rightarrow> string option option"
  and suborpos_rule :: "rule \<Rightarrow> string option" where
  "suborpos [] = None"
| "suborpos (None # ls) = suborpos ls"
| "suborpos (Some l # ls) = (case suborpos_list l of Some v \<Rightarrow> v | None \<Rightarrow> suborpos ls)"
| "suborpos_list [] = None"
| "suborpos_list (None # as) = suborpos_list as"
| "suborpos_list (Some (Routine n [] f la c) # as) = suborpos_list as"
| "suborpos_list (Some (Routine n (r # rs) f la c) # as) = Some (suborpos_rule r)"
| "suborpos_rule (Substitution _ _) = Some ''sub''"
| "suborpos_rule (Positioning _ _) = Some ''pos''"
| "suborpos_rule (Attachment _ _) = Some ''pos''"
| "suborpos_rule (Chaining c) = suborpos (lookups c)"
  by pat_completeness auto
termination
  apply (relation "measure (\<lambda>x. case x of
      Inl lks \<Rightarrow> size_list (size_option (size_list (size_option size))) lks
    | Inr (Inl l) \<Rightarrow> size_list (size_option size) l
    | Inr (Inr r) \<Rightarrow> size r)")
            apply simp_all
  subgoal for c by (cases c) simp
  done

subsection \<open>Named classes for long glyph classes\<close>

definition gensym :: "session \<Rightarrow> string \<times> session" where
  "gensym ff =
     (let ff1 = (if scratch_index ff = None then ff\<lparr>scratch_index := Some 0\<rparr> else ff);
          ff2 = ff1\<lparr>scratch_index := Some (the (scratch_index ff1) + 1)\<rparr>
      in (str_int (the (scratch_index ff2)), ff2))"

text \<open>
  The body of \<^verbatim>\<open>if len(gc) > 5\<close> up to the choice of \<open>classname\<close>. Reading
  \<^verbatim>\<open>ff.scratch["glyphclasses"]\<close> raises \<^verbatim>\<open>KeyError\<close> when the entry is missing.
\<close>

definition class_for :: "string list \<Rightarrow> session \<Rightarrow> error + (string \<times> session)" where
  "class_for gc ff =
     (case scratch_glyphclasses ff of
        None \<Rightarrow> Inl KeyError
      | Some cache \<Rightarrow>
          (case cache (sort gc) of
             None \<Rightarrow>
               (let (n, ff1) = gensym ff;
                    classname = ''class'' @ n;
                    ff2 = ff1\<lparr>namedClasses := (namedClasses ff1)(classname \<mapsto> gc)\<rparr>;
                    ff3 = ff2\<lparr>scratch_glyphclasses := Some (cache(sort gc \<mapsto> classname))\<rparr>
                in Inr (classname, ff3))
           | Some classname \<Rightarrow> Inr (classname, ff)))"

text \<open>
  \<open>replaceLongWithClasses i ff\<close> gives the sequence \<open>i\<close> as the loop leaves it and the
  session. The only exception is the \<^verbatim>\<open>KeyError\<close> of a missing cache, which is raised
  at the first long class, before anything has been written.
\<close>

fun replaceLongWithClasses :: "string list list \<Rightarrow> session \<Rightarrow> error + (string list list \<times> session)" where
  "replaceLongWithClasses [] ff = Inr ([], ff)"
| "replaceLongWithClasses (gc # rest) ff =
     (if length gc > 5 then
        (case class_for gc ff of
           Inl e \<Rightarrow> Inl e
         | Inr (classname, ff') \<Rightarrow>
             (case replaceLongWithClasses rest ff' of
                Inl e \<Rightarrow> Inl e
              | Inr (rest', ff'') \<Rightarrow> Inr ([CHR ''@'' # classname] # rest', ff'')))
      else
        (case replaceLongWithClasses rest ff of
           Inl e \<Rightarrow> Inl e
         | Inr (rest', ff'') \<Rightarrow> Inr (gc # rest', ff'')))"

subsection \<open>feaPreamble\<close>

text \<open>
  \<^verbatim>\<open>lookuplist[0].name + "_" + lookuplist[1].name\<close>: reading \<^verbatim>\<open>.name\<close> of \<^verbatim>\<open>None\<close>
  raises \<^verbatim>\<open>AttributeError\<close>, adding \<^verbatim>\<open>None\<close> to a string raises \<^verbatim>\<open>TypeError\<close>.
\<close>

definition synthname_of :: "routine option \<Rightarrow> routine option \<Rightarrow> error + string" where
  "synthname_of a b =
     (case a of
        None \<Rightarrow> Inl AttributeError
      | Some ra \<Rightarrow>
          (case name ra of
             None \<Rightarrow> Inl TypeError
           | Some na \<Rightarrow>
               (case b of
                  None \<Rightarrow> Inl AttributeError
                | Some rb \<Rightarrow>
                    (case name rb of
                       None \<Rightarrow> Inl TypeError
                     | Some nb \<Rightarrow> Inr (na @ ''_'' @ nb)))))"

text \<open>
  One round of the loop over \<^verbatim>\<open>enumerate(self.lookups)\<close>, for a position that holds
  exactly two entries. The result is: the exception if one was raised, the entry of
  \<^verbatim>\<open>self.lookups\<close> at this position, the session, what was appended to \<open>rv\<close>, and the
  pairs on which \<^verbatim>\<open>compatibleRules\<close> was called. The synthesised routine is one object,
  stored in the rule and in the cache before it is serialised; both hold it as the
  serialisation leaves it, also when the serialisation raises.
\<close>

definition synthesise_pair ::
  "'b externals \<Rightarrow> routine option \<Rightarrow> routine option \<Rightarrow> session \<Rightarrow>
     error option \<times> routine option list option \<times> session \<times> 'b list \<times> (routine \<times> routine) list" where
  "synthesise_pair E a b ff =
     (let unchanged = Some [a, b] in
      case synthname_of a b of
        Inl e \<Rightarrow> (Some e, unchanged, ff, [], [])
      | Inr synthname \<Rightarrow>
          (case synthname_of b a of
             Inl e \<Rightarrow> (Some e, unchanged, ff, [], [])
           | Inr synthname2 \<Rightarrow>
               (case scratch_synthesised_lookups ff of
                  None \<Rightarrow> (Some KeyError, unchanged, ff, [], [])
                | Some cache \<Rightarrow>
                    (case cache synthname of
                       Some s \<Rightarrow> (None, Some [Some s], ff, [], [])
                     | None \<Rightarrow>
                        (case cache synthname2 of
                           Some s \<Rightarrow> (None, Some [Some s], ff, [], [])
                         | None \<Rightarrow>
                            (if compatibleRules E (the a) (the b) then
                               (let synthesised = Routine_init [];
                                    synthesised = Routine (name synthesised)
                                      (rules synthesised @ rules (the a) @ rules (the b))
                                      (flags synthesised) (languages synthesised) (comments synthesised);
                                    synthesised = set_name (Some synthname) synthesised;
                                    synthesised = optimize_routine E synthesised;
                                    (res, synthesised) = routine_asFeaAST E synthesised;
                                    ff' = ff\<lparr>scratch_synthesised_lookups := Some (cache(synthname \<mapsto> synthesised))\<rparr>
                                in (case res of
                                      Inl e \<Rightarrow> (Some e, Some [Some synthesised], ff', [], [(the a, the b)])
                                    | Inr st \<Rightarrow> (None, Some [Some synthesised], ff', [st], [(the a, the b)])))
                             else (None, unchanged, ff, [], [(the a, the b)])))))))"

fun feaPreamble_loop ::
  "'b externals \<Rightarrow> routine option list option list \<Rightarrow> session \<Rightarrow>
     error option \<times> routine option list option list \<times> session \<times> 'b list \<times> (routine \<times> routine) list" where
  "feaPreamble_loop E [] ff = (None, [], ff, [], [])"
| "feaPreamble_loop E (Some [a, b] # rest) ff =
     (case synthesise_pair E a b ff of
        (Some e, l, ff', rv, calls) \<Rightarrow> (Some e, l # rest, ff', rv, calls)
      | (None, l, ff', rv, calls) \<Rightarrow>
          (case feaPreamble_loop E rest ff' of
             (err, rest', ff'', rv', calls') \<Rightarrow> (err, l # rest', ff'', rv @ rv', calls @ calls')))"
| "feaPreamble_loop E (lookuplist # rest) ff =
     (case feaPreamble_loop E rest ff of
        (err, rest', ff', rv, calls) \<Rightarrow> (err, lookuplist # rest', ff', rv, calls))"

text \<open>
  \<open>feaPreamble E self ff\<close> gives the list \<open>rv\<close> or the exception, the rule and the
  session as the call leaves them, and the calls of \<^verbatim>\<open>compatibleRules\<close> in order.
\<close>

definition feaPreamble ::
  "'b externals \<Rightarrow> chaining \<Rightarrow> session \<Rightarrow>
     (error + 'b list) \<times> chaining \<times> session \<times> (routine \<times> routine) list" where
  "feaPreamble E self ff =
     (let ff0 = (if scratch_glyphclasses ff = None
                 then ff\<lparr>scratch_glyphclasses := Some Map.empty\<rparr> else ff) in
      case replaceLongWithClasses (input self) ff0 of
        Inl e \<Rightarrow> (Inl e, self, ff0, [])
      | Inr (i, ff1) \<Rightarrow>
          (let self1 = set_input i self in
           case replaceLongWithClasses (precontext self1) ff1 of
             Inl e \<Rightarrow> (Inl e, self1, ff1, [])
           | Inr (pre, ff2) \<Rightarrow>
               (let self2 = set_precontext pre self1 in
                case replaceLongWithClasses (postcontext self2) ff2 of
                  Inl e \<Rightarrow> (Inl e, self2, ff2, [])
                | Inr (post, ff3) \<Rightarrow>
                    (let self3 = set_postcontext post self2;
                         ff4 = markRoutineUseInChains E ff3;
                         ff5 = (if scratch_synthesised_lookups ff4 = None
                                then ff4\<lparr>scratch_synthesised_lookups := Some Map.empty\<rparr> else ff4)
                     in (case feaPreamble_loop E (lookups self3) ff5 of
                           (err, lks, ff6, rv, calls) \<Rightarrow>
                             ((case err of Some e \<Rightarrow> Inl e | None \<Rightarrow> Inr rv),
                              set_lookups lks self3, ff6, calls))))))"

subsection \<open>asFeaAST\<close>

text \<open>
  The loop of \<^verbatim>\<open>_complex\<close> over the former list \<open>lu\<close>:
  \<^verbatim>\<open>lu[ix] = [ x and x.name for x in lul ]\<close>. Iterating over an entry that is
  \<^verbatim>\<open>None\<close> raises \<^verbatim>\<open>TypeError\<close>.
\<close>

fun names_only :: "routine option list option list \<Rightarrow> error + string option list list" where
  "names_only [] = Inr []"
| "names_only (None # rest) = Inl TypeError"
| "names_only (Some lul # rest) =
     (case names_only rest of
        Inl e \<Rightarrow> Inl e
      | Inr ns \<Rightarrow> Inr (map (\<lambda>x. case x of None \<Rightarrow> None | Some r \<Rightarrow> name r) lul # ns))"

text \<open>
  \<^verbatim>\<open>_complex\<close> and \<^verbatim>\<open>asFeaAST\<close> give the statement or the exception, the rule as the
  call leaves it, and the warnings issued.
\<close>

definition chain_complex :: "chaining \<Rightarrow> (error + stmt) \<times> chaining \<times> string list" where
  "chain_complex self =
     (let warnings = [''Can't currently express multiple lookups per position in AFDKO''];
          lu = lookups self;
          self' = set_lookups [] self
      in (case names_only lu of
            Inl e \<Rightarrow> (Inl e, self', warnings)
          | Inr lu' \<Rightarrow> (Inr (Comment ''# Unparsing failed''), self', warnings)))"

text \<open>\<^verbatim>\<open>x and len(x) > 1\<close> and \<^verbatim>\<open>x or [None]\<close> for one entry of \<^verbatim>\<open>self.lookups\<close>.\<close>

fun more_than_one :: "routine option list option \<Rightarrow> bool" where
  "more_than_one None = False"
| "more_than_one (Some l) = (l \<noteq> [] \<and> length l > 1)"

fun or_none :: "routine option list option \<Rightarrow> routine option list option" where
  "or_none None = Some [None]"
| "or_none (Some l) = (if l = [] then Some [None] else Some l)"

definition asFeaAST :: "chaining \<Rightarrow> (error + stmt) \<times> chaining \<times> string list" where
  "asFeaAST self =
     (if length (lookups self) > 0 \<and> list_ex (\<lambda>x. x \<noteq> None) (lookups self) then
        (let routine = (if suborpos (lookups self) = Some ''sub''
                        then ChainContextSubstStatement else ChainContextPosStatement) in
         if list_ex more_than_one (lookups self) then chain_complex self
         else (let self' = set_lookups (map or_none (lookups self)) self;
                   lookups' = map (\<lambda>l. hd (the l)) (lookups self')
               in (Inr (routine (map glyphref (precontext self')) (map glyphref (input self'))
                          (map glyphref (postcontext self')) lookups'),
                   self', [])))
      else (Inr (IgnoreSubstStatement
                   [[map glyphref (precontext self), map glyphref (input self),
                     map glyphref (postcontext self)]]),
            self, []))"

section \<open>Routine.py: serialising a routine\<close>

text \<open>
  \<^verbatim>\<open>asFeaAST\<close> of Routine.py. The statements of Substitution, Positioning and Attachment
  rules come from their classes, through \<open>other\<close> (a statement or an exception); a
  Chaining rule is lowered by \<open>asFeaAST\<close> above, which changes the rule. The result is the
  block or the exception, the routine as the call leaves it (its flags as \<open>arrange\<close> set
  them and, at a leaf, its rules as their lowering leaves them), and the warnings issued.

  The routines that \<open>arrange\<close> returns hold rule objects of \<open>self\<close>, and a routine
  merged by \<open>feaPreamble\<close> holds rule objects of the two routines it is made from. This
  model works on values: what serialising a routine does to its chaining rules is not
  carried over to the other routines that hold the same rule objects. The statements below
  are about names, caches and the lookups of the rule being lowered, which this sharing
  does not reach.
\<close>

definition set_rules :: "rule list \<Rightarrow> routine \<Rightarrow> routine" where
  "set_rules rs r = Routine (name r) rs (flags r) (languages r) (comments r)"

text \<open>\<^verbatim>\<open>"%4s" % l\<close>: padded with spaces on the left to four characters.\<close>

definition pad4 :: "string \<Rightarrow> string" where
  "pad4 l = replicate (4 - length l) CHR '' '' @ l"

text \<open>
  The loop \<^verbatim>\<open>for x in self.rules: f.statements.append(x.asFeaAST())\<close>: the exception if
  one was raised, the statements, the rules as the loop leaves them, and the warnings.
\<close>

fun lower_rules ::
  "(rule \<Rightarrow> error + stmt) \<Rightarrow> rule list \<Rightarrow> error option \<times> stmt list \<times> rule list \<times> string list" where
  "lower_rules other [] = (None, [], [], [])"
| "lower_rules other (Chaining c # xs) =
     (case asFeaAST c of
        (Inl e, c', ws) \<Rightarrow> (Some e, [], Chaining c' # xs, ws)
      | (Inr st, c', ws) \<Rightarrow>
          (case lower_rules other xs of
             (err, sts, xs', ws') \<Rightarrow> (err, st # sts, Chaining c' # xs', ws @ ws')))"
| "lower_rules other (x # xs) =
     (case other x of
        Inl e \<Rightarrow> (Some e, [], x # xs, [])
      | Inr st \<Rightarrow>
          (case lower_rules other xs of
             (err, sts, xs', ws') \<Rightarrow> (err, st # sts, x # xs', ws')))"

text \<open>
  The loop \<^verbatim>\<open>for a in arranged: f.statements.append(asFeaAST(a))\<close> over the results of
  the children: it stops at the first exception.
\<close>

fun gather :: "((error + stmt) \<times> routine \<times> string list) list \<Rightarrow> (error + stmt list) \<times> string list" where
  "gather [] = (Inr [], [])"
| "gather ((Inl e, _, ws) # _) = (Inl e, ws)"
| "gather ((Inr st, _, ws) # rest) =
     (case gather rest of
        (Inl e, ws') \<Rightarrow> (Inl e, ws @ ws')
      | (Inr sts, ws') \<Rightarrow> (Inr (st # sts), ws @ ws'))"

text \<open>The script, language and lookup flag statements of a routine that is not split.\<close>

definition leaf_statements :: "routine \<Rightarrow> stmt list" where
  "leaf_statements self =
     (case languages self of
        Some ((s, l) # _) \<Rightarrow>
          if s = ''DFLT'' \<and> l = ''dflt'' then []
          else ScriptStatement s # (if l \<noteq> ''*'' then [LanguageStatement (pad4 l)] else [])
      | _ \<Rightarrow> []) @
     (case flags self of
        Some f \<Rightarrow> if f > 0 then [LookupFlagStatement f] else []
      | None \<Rightarrow> [])"

text \<open>
  The recursion goes through the children that \<open>arrange\<close> returns; each child has fewer
  distinct subtype keys, language scopes or flags values than its parent, which
  \<open>arrange_measure\<close> counts (the termination proof is given with the properties of
  \<open>arrange\<close>). \<^verbatim>\<open>Comment\<close> is not a name of the module Routine.py: a routine with a
  comment raises \<^verbatim>\<open>NameError\<close>.
\<close>

definition arrange_measure :: "routine \<Rightarrow> nat" where
  "arrange_measure self =
     card (key_int ` lookup_type ` set (rules self)) + card (set (language_scopes self)) +
     card (flags_of ` set (rules self))"

function Routine_asFeaAST ::
  "(rule \<Rightarrow> error + stmt) \<Rightarrow> routine \<Rightarrow> (error + stmt) \<times> routine \<times> string list" where
  "Routine_asFeaAST other self =
     (let f = (if truthy_name (name self) then LookupBlock (the (name self)) else Block) in
      case arrange self of
        (Inl e, self') \<Rightarrow> (Inl e, self', [])
      | (Inr arranged, self') \<Rightarrow>
          if truthy_split arranged then
            (case gather (map (Routine_asFeaAST other) (the arranged)) of
               (Inl e, ws) \<Rightarrow> (Inl e, self', ws)
             | (Inr sts, ws) \<Rightarrow> (Inr (f sts), self', ws))
          else if comments self' \<noteq> [] then (Inl NameError, self', [])
          else (case lower_rules other (rules self') of
                  (Some e, sts, rs, ws) \<Rightarrow> (Inl e, set_rules rs self', ws)
                | (None, sts, rs, ws) \<Rightarrow>
                    (Inr (f (leaf_statements self' @ sts)), set_rules rs self', ws)))"
  by pat_completeness auto

section \<open>Notions used in the statements\<close>

text \<open>The four parts of what \<open>feaPreamble\<close> gives, and the two first parts of \<open>asFeaAST\<close>.\<close>

definition preamble_result :: "'b externals \<Rightarrow> chaining \<Rightarrow> session \<Rightarrow> error + 'b list" where
  "preamble_result E self ff = fst (feaPreamble E self ff)"

definition preamble_rule :: "'b externals \<Rightarrow> chaining \<Rightarrow> session \<Rightarrow> chaining" where
  "preamble_rule E self ff = fst (snd (feaPreamble E self ff))"

definition preamble_session :: "'b externals \<Rightarrow> chaining \<Rightarrow> session \<Rightarrow> session" where
  "preamble_session E self ff = fst (snd (snd (feaPreamble E self ff)))"

definition preamble_calls :: "'b externals \<Rightarrow> chaining \<Rightarrow> session \<Rightarrow> (routine \<times> routine) list" where
  "preamble_calls E self ff = snd (snd (snd (feaPreamble E self ff)))"

definition lowered_stmt :: "chaining \<Rightarrow> error + stmt" where
  "lowered_stmt self = fst (asFeaAST self)"

definition lowered_rule :: "chaining \<Rightarrow> chaining" where
  "lowered_rule self = fst (snd (asFeaAST self))"

text \<open>The ignore statement over the three context sequences of a rule.\<close>

definition ignore_stmt :: "chaining \<Rightarrow> stmt" where
  "ignore_stmt self = IgnoreSubstStatement
     [[map glyphref (precontext self), map glyphref (input self), map glyphref (postcontext self)]]"

text \<open>
  A sequence of glyph classes in which every class of more than five glyphs has given way
  to the one-element class \<^verbatim>\<open>["@" + name]\<close>, the name being \<open>nm\<close> of the sorted class.
\<close>

definition replaced :: "(string list \<Rightarrow> string) \<Rightarrow> string list list \<Rightarrow> string list list" where
  "replaced nm i = map (\<lambda>gc. if 5 < length gc then [CHR ''@'' # nm (sort gc)] else gc) i"

text \<open>
  A session is a sequence of lowerings on one container: \<open>session_after E rs ff\<close> is the
  session after \<open>feaPreamble\<close> has run on the rules \<open>rs\<close>, in order, from \<open>ff\<close>; a run
  that raises leaves the session as it was when the exception was raised, and the next run
  starts from there.
\<close>

definition session_after :: "'b externals \<Rightarrow> chaining list \<Rightarrow> session \<Rightarrow> session" where
  "session_after E rs ff = foldl (\<lambda>s r. preamble_session E r s) ff rs"

text \<open>The counter and the cache of class names of a session, absent entries read as new.\<close>

definition counter :: "session \<Rightarrow> int" where
  "counter ff = (case scratch_index ff of None \<Rightarrow> 0 | Some i \<Rightarrow> i)"

definition class_cache :: "session \<Rightarrow> string list \<rightharpoonup> string" where
  "class_cache ff = (case scratch_glyphclasses ff of None \<Rightarrow> Map.empty | Some c \<Rightarrow> c)"

text \<open>
  A session whose cache of class names agrees with its table of named classes and its
  counter: every cached name was generated from the counter, and the table holds under it
  a class whose sorted form is the cache key. A session without a cache is one.
\<close>

definition classes_registered :: "session \<Rightarrow> bool" where
  "classes_registered ff \<longleftrightarrow>
     0 \<le> counter ff \<and>
     (\<forall>k n. class_cache ff k = Some n \<longrightarrow>
        (\<exists>gc. namedClasses ff n = Some gc \<and> sort gc = k) \<and>
        (\<exists>j. 1 \<le> j \<and> j \<le> counter ff \<and> n = ''class'' @ str_int j))"


text \<open>
  For concrete runs: collaborators whose oracle answers \<open>verdict\<close> on every pair and whose
  optimiser and marking change nothing; the statement of a Substitution, Positioning or
  Attachment rule is \<open>RuleStatement\<close> of the rule, and a routine is serialised by
  \<open>Routine_asFeaAST\<close>. A fresh session; three routines of one substitution each.
\<close>

definition stub_externals :: "bool \<Rightarrow> stmt externals" where
  "stub_externals verdict =
     \<lparr>compatibleRules = (\<lambda>a b. verdict), optimize_routine = (\<lambda>r. r),
      markRoutineUseInChains = (\<lambda>s. s),
      routine_asFeaAST = (\<lambda>r. case Routine_asFeaAST (\<lambda>x. Inr (RuleStatement x)) r of
                                (res, r', ws) \<Rightarrow> (res, r'))\<rparr>"

definition new_session :: session where
  "new_session = \<lparr>scratch_index = None, scratch_glyphclasses = None,
                  scratch_synthesised_lookups = None, namedClasses = Map.empty\<rparr>"

definition routine_A :: routine where
  "routine_A = Routine (Some ''A'') [Substitution 1 0] None None []"

definition routine_B :: routine where
  "routine_B = Routine (Some ''B'') [Substitution 1 0] None None []"

definition routine_C :: routine where
  "routine_C = Routine (Some ''C'') [Substitution 1 0] None None []"

section \<open>Properties of the buckets\<close>

lemma first_seen_snoc: "first_seen (xs @ [x]) = (if x \<in> set xs then first_seen xs else first_seen xs @ [x])"
  by (simp add: first_seen_def)

lemma first_seen_set: "set (first_seen xs) = set xs"
  by (simp add: first_seen_def)

lemma first_seen_distinct: "distinct (first_seen xs)"
  by (simp add: first_seen_def)

lemma first_seen_length: "length (first_seen xs) = card (set xs)"
  by (simp add: first_seen_def length_remdups_card_conv)

lemma foldl_same_key:
  "\<forall>x\<in>set xs. eq k (key x) \<Longrightarrow>
   foldl (\<lambda>d r. dict_extend eq (key r) [r] d) [(k, ws)] xs = [(k, ws @ xs)]"
  by (induction xs arbitrary: ws) simp_all

lemma bucket_by_one:
  "\<forall>y\<in>set xs. eq (key x) (key y) \<Longrightarrow> bucket_by eq key (x # xs) = [(key x, x # xs)]"
  using foldl_same_key [of xs eq "key x" key "[x]"] by (simp add: bucket_by_def)

lemma dict_extend_keys:
  "map fst (dict_extend (=) k vs d) = (if k \<in> set (map fst d) then map fst d else map fst d @ [k])"
  by (induction d) force+

lemma dict_extend_map_of:
  "map_of (dict_extend (=) k vs d) =
     (map_of d)(k \<mapsto> (case map_of d k of None \<Rightarrow> vs | Some ws \<Rightarrow> ws @ vs))"
  by (induction d) (auto simp: fun_eq_iff)

lemma concat_replicate_snoc: "concat (replicate n R) @ R = R @ concat (replicate n R)"
  by (induction n) simp_all

lemma buckets_keys:
  "map fst (foldl (\<lambda>d p. dict_extend (=) (g p) R d) [] ls) = first_seen (map g ls)"
  by (induction ls rule: rev_induct) (auto simp: dict_extend_keys first_seen_snoc first_seen_set first_seen_def)

lemma buckets_map_of:
  "map_of (foldl (\<lambda>d p. dict_extend (=) (g p) R d) [] ls) k =
     (if k \<in> g ` set ls then Some (concat (replicate (count_list (map g ls) k) R)) else None)"
proof (induction ls rule: rev_induct)
  case Nil
  then show ?case by simp
next
  case (snoc p ls)
  then show ?case
    by (auto simp: dict_extend_map_of concat_replicate_snoc)
qed

lemma alist_by_keys:
  "distinct (map fst d) \<Longrightarrow> d = map (\<lambda>k. (k, the (map_of d k))) (map fst d)"
proof (induction d)
  case Nil
  then show ?case by simp
next
  case (Cons a d)
  have "map (\<lambda>k. (k, the (map_of (a # d) k))) (map fst d) = map (\<lambda>k. (k, the (map_of d k))) (map fst d)"
  proof (rule map_cong)
    fix x assume "x \<in> set (map fst d)"
    with Cons.prems have "x \<noteq> fst a" by (cases a) force
    then show "(x, the (map_of (a # d) x)) = (x, the (map_of d x))" by (cases a) simp
  qed simp
  with Cons show ?case by (cases a) simp
qed

lemma language_buckets_eq:
  "language_buckets self ls =
     map (\<lambda>k. (k, concat (replicate (count_list (map expand_lang ls) k) (rules self))))
       (first_seen (map expand_lang ls))"
proof -
  let ?d = "language_buckets self ls"
  have keys: "map fst ?d = first_seen (map expand_lang ls)"
    unfolding language_buckets_def by (rule buckets_keys)
  then have "distinct (map fst ?d)" by (simp add: first_seen_distinct)
  then have "?d = map (\<lambda>k. (k, the (map_of ?d k))) (map fst ?d)" by (rule alist_by_keys)
  also have "\<dots> = map (\<lambda>k. (k, the (map_of ?d k))) (first_seen (map expand_lang ls))"
    by (simp only: keys)
  also have "\<dots> = map (\<lambda>k. (k, concat (replicate (count_list (map expand_lang ls) k) (rules self))))
       (first_seen (map expand_lang ls))"
    by (rule map_cong) (auto simp: first_seen_set language_buckets_def buckets_map_of)
  finally show ?thesis .
qed

lemma arrange_by_type_loop_nil: "arrange_by_type_loop self kvs [] = Inr rs \<Longrightarrow> rs = []"
  by (induction kvs) (auto split: if_splits)

lemma arrange_by_type_no_children: "arrange_by_type g = Inr (Some rs) \<Longrightarrow> rs = []"
  by (auto simp: arrange_by_type_def Let_def arrange_by_type_loop_nil split: if_splits sum.splits)

lemma arrange_by_language_one_scope:
  assumes "card (set (language_scopes self)) \<le> 1"
  shows "arrange_by_language self = None"
proof (cases "languages self")
  case None
  then show ?thesis by (simp add: arrange_by_language_def)
next
  case (Some ls)
  have "length (language_buckets self ls) = card (set (map expand_lang ls))"
    by (simp add: language_buckets_eq first_seen_length)
  with assms Some show ?thesis
    by (simp add: arrange_by_language_def language_scopes_def Let_def)
qed

section \<open>Properties of arrange\<close>

text \<open>
  C1. The claim: a group with rules of two or more of the four rule classes is split by
  \<open>arrange\<close> into one child per class, each child holding the parent's rules of that class
  and named after the parent and the class. The code does not do this: the loop of
  \<open>arrange_by_type\<close> never appends the child it builds, so the pass returns the empty list,
  which \<open>arrange\<close> takes for "no split" and goes on to the later passes; for a named group
  the pass raises \<^verbatim>\<open>TypeError\<close>. Here for a group of one Substitution and one
  Positioning rule.
\<close>

theorem arrange_mixed_types_no_children:
  "arrange_by_type (Routine None [Substitution 1 0, Positioning 1 0] None None []) = Inr (Some []) \<and>
   arrange (Routine None [Substitution 1 0, Positioning 1 0] None None []) =
     (Inr None, Routine None [Substitution 1 0, Positioning 1 0] (Some 0) None []) \<and>
   arrange (Routine (Some ''r'') [Substitution 1 0, Positioning 1 0] None None []) =
     (Inl TypeError, Routine (Some ''r'') [Substitution 1 0, Positioning 1 0] None None [])"
  by (simp add: arrange_def arrange_by_type_def arrange_by_lookup_type_def arrange_by_language_def
      arrange_by_flags_def bucket_by_def py_eq_def Routine_init_def set_flags_def)

text \<open>
  C4. The claim: a group whose subtype keys are exactly 1 and 2 is never split by
  \<open>arrange_by_lookup_type\<close>, in whichever order the two subtypes first occur. The code
  compares the keys, in insertion order, with the tuple (1, 2): when a rule of subtype 2
  comes first the keys are (2, 1) and the group is split; in the order 1, 2 it is not.
\<close>

theorem arrange_by_lookup_type_2_then_1_splits:
  "map fst (bucket_by py_eq lookup_type [Substitution 2 0, Substitution 1 0]) = [KInt 2, KInt 1] \<and>
   arrange_by_lookup_type (Routine (Some ''r'') [Substitution 2 0, Substitution 1 0] None None []) =
     Some [Routine (Some ''r_2'') [Substitution 2 0] None None [],
           Routine (Some ''r_1'') [Substitution 1 0] None None []] \<and>
   arrange_by_lookup_type (Routine (Some ''r'') [Substitution 1 0, Substitution 2 0] None None []) = None"
  by (simp add: arrange_by_lookup_type_def bucket_by_def py_eq_def name_child_def set_name_def
      Routine_init_def str_int_def str_nat.simps digit_char_def)

text \<open>
  C9 as stated fails: a cursive Attachment rule has the key \<^verbatim>\<open>True\<close> and a Chaining rule
  the key 1, which are the same dictionary key; the two rules share one bucket and
  \<open>arrange_by_lookup_type\<close> reports no split.
\<close>

theorem cursive_attachment_chaining_one_bucket:
  "bucket_by py_eq lookup_type [Attachment True 0, Chaining (Chain [] [[''a'']] [] [None] 0)] =
     [(KBool True, [Attachment True 0, Chaining (Chain [] [[''a'']] [] [None] 0)])] \<and>
   arrange_by_lookup_type (Routine (Some ''r'') [Attachment True 0, Chaining (Chain [] [[''a'']] [] [None] 0)] None None []) = None"
  by (simp add: arrange_by_lookup_type_def bucket_by_def py_eq_def)

text \<open>
  C9, amended. The subtype tag of an Attachment rule is its boolean cursive flag, and as a
  bucketing key it is the same as the tag of a Chaining rule (1) exactly when the rule is
  cursive: a group of a cursive Attachment rule and a Chaining rule is one bucket and
  \<open>arrange_by_lookup_type\<close> returns no split; a group of a non-cursive Attachment rule and
  a Chaining rule is split into the two buckets \<^verbatim>\<open>False\<close> and 1.
\<close>

theorem attachment_chaining_buckets:
  "py_eq (lookup_type (Attachment cur f)) (lookup_type (Chaining c)) = cur \<and>
   arrange_by_lookup_type (Routine n [Attachment cur f, Chaining c] fl la cm) =
     (if cur then None
      else Some [Routine (if truthy_name n then Some (the n @ ''_False'') else None) [Attachment cur f] None None [],
                 Routine (if truthy_name n then Some (the n @ ''_1'') else None) [Chaining c] None None []])"
  by (simp add: arrange_by_lookup_type_def bucket_by_def py_eq_def name_child_def set_name_def
      Routine_init_def str_int_def str_nat.simps digit_char_def)

text \<open>
  C7 as stated fails: when a pair occurs twice in the expanded list (here
  \<^verbatim>\<open>("latn", "*")\<close> and \<^verbatim>\<open>("latn", "dflt")\<close>), its child holds the parent's rules
  twice.
\<close>

theorem arrange_by_language_duplicates_rules:
  "card (set (map expand_lang [(''latn'', ''*''), (''latn'', ''dflt''), (''arab'', ''dflt'')])) = 2 \<and>
   arrange_by_language (Routine (Some ''r'') [Substitution 1 0] None
       (Some [(''latn'', ''*''), (''latn'', ''dflt''), (''arab'', ''dflt'')]) []) =
     Some [Routine (Some ''r_latn_dflt'') [Substitution 1 0, Substitution 1 0] None (Some [(''latn'', ''dflt'')]) [],
           Routine (Some ''r_arab_dflt'') [Substitution 1 0] None (Some [(''arab'', ''dflt'')]) []] \<and>
   rules (hd (the (arrange_by_language (Routine (Some ''r'') [Substitution 1 0] None
       (Some [(''latn'', ''*''), (''latn'', ''dflt''), (''arab'', ''dflt'')]) [])))) \<noteq> [Substitution 1 0]"
  by (simp add: arrange_by_language_def language_buckets_def expand_lang_def name_child_def
      set_name_def set_languages_def Routine_init_def)

text \<open>
  C7, amended. For every group with a non-empty languages list that expands (language
  \<^verbatim>\<open>"*"\<close> becoming \<^verbatim>\<open>"dflt"\<close>) to at least two distinct pairs,
  \<open>arrange_by_language\<close> returns exactly one child per distinct expanded pair, in the
  order of first occurrence; the child of a pair holds the parent's rules, in order,
  repeated once for each occurrence of the pair in the expanded list (so exactly once
  when the pair occurs once); its languages field is that single pair, and when the
  parent is named its name is the parent's name, \<^verbatim>\<open>"_"\<close>, the script, \<^verbatim>\<open>"_"\<close> and the
  language.
\<close>

theorem arrange_by_language_children:
  assumes "languages self = Some ls"
    and "2 \<le> card (set (map expand_lang ls))"
  shows "arrange_by_language self =
     Some (map (\<lambda>k. Routine
                  (if truthy_name (name self) then Some (the (name self) @ ''_'' @ fst k @ ''_'' @ snd k) else None)
                  (concat (replicate (count_list (map expand_lang ls) k) (rules self)))
                  None (Some [k]) [])
             (first_seen (map expand_lang ls)))
    \<and> length (first_seen (map expand_lang ls)) = card (set (map expand_lang ls))
    \<and> distinct (first_seen (map expand_lang ls))
    \<and> set (first_seen (map expand_lang ls)) = set (map expand_lang ls)"
proof -
  from assms(2) have "ls \<noteq> []" by auto
  moreover have "\<not> length (language_buckets self ls) < 2"
    using assms(2) by (simp add: language_buckets_eq first_seen_length)
  ultimately have "arrange_by_language self =
      Some (map (\<lambda>(k, v). name_child self (fst k @ ''_'' @ snd k)
                                  (set_languages (Some [k]) (Routine_init v))) (language_buckets self ls))"
    using assms(1) by (simp add: arrange_by_language_def Let_def)
  then show ?thesis
    by (simp add: language_buckets_eq o_def name_child_def set_languages_def set_name_def
        Routine_init_def first_seen_length first_seen_distinct first_seen_set)
qed

text \<open>The theorem at a group with two rules and the scopes latn/* and arab/URD.\<close>

theorem arrange_by_language_children_witness:
  "arrange_by_language (Routine (Some ''kern'') [Positioning 2 0, Positioning 2 0] None
       (Some [(''latn'', ''*''), (''arab'', ''URD '')]) []) =
     Some [Routine (Some ''kern_latn_dflt'') [Positioning 2 0, Positioning 2 0] None (Some [(''latn'', ''dflt'')]) [],
           Routine (Some ''kern_arab_URD '') [Positioning 2 0, Positioning 2 0] None (Some [(''arab'', ''URD '')]) []]"
  using arrange_by_language_children [of "Routine (Some ''kern'') [Positioning 2 0, Positioning 2 0] None
       (Some [(''latn'', ''*''), (''arab'', ''URD '')]) []" "[(''latn'', ''*''), (''arab'', ''URD '')]"]
  by (simp add: expand_lang_def first_seen_def)

text \<open>
  C8. For every group with at least one rule whose rules all have one class, one subtype
  tag and one flags value, and whose languages expand to at most one scope, \<open>arrange\<close>
  returns \<^verbatim>\<open>None\<close>, and the group is left with its flags field set to the shared flags
  value and nothing else changed.
\<close>

theorem arrange_homogeneous:
  assumes ne: "rules self \<noteq> []"
    and same: "\<forall>r\<in>set (rules self). type_of r = t \<and> lookup_type r = k \<and> flags_of r = f"
    and lang: "card (set (language_scopes self)) \<le> 1"
  shows "arrange self = (Inr None, set_flags (Some f) self)"
proof -
  from ne obtain r rs where rules: "rules self = r # rs" by (cases "rules self") auto
  have ty: "bucket_by (=) type_of (rules self) = [(t, r # rs)]"
    using same bucket_by_one [of rs "(=)" type_of r] by (simp add: rules)
  have lt: "bucket_by py_eq lookup_type (rules self) = [(k, r # rs)]"
    using same bucket_by_one [of rs py_eq lookup_type r] by (simp add: rules py_eq_def)
  have fl: "bucket_by (=) flags_of (rules self) = [(f, r # rs)]"
    using same bucket_by_one [of rs "(=)" flags_of r] by (simp add: rules)
  have 1: "arrange_by_type self = Inr None"
    by (simp add: arrange_by_type_def ty)
  have 2: "arrange_by_lookup_type self = None"
    by (simp add: arrange_by_lookup_type_def lt)
  have 3: "arrange_by_language self = None"
    using lang by (rule arrange_by_language_one_scope)
  have 4: "arrange_by_flags self = (None, set_flags (Some f) self)"
    by (simp add: arrange_by_flags_def fl)
  show ?thesis
    by (simp add: arrange_def 1 2 3 4)
qed

text \<open>The theorem at a named group of two ligature substitutions with flags 8.\<close>

theorem arrange_homogeneous_witness:
  "arrange (Routine (Some ''liga'') [Substitution 4 8, Substitution 4 8] None (Some [(''latn'', ''*'')]) [''c''])
     = (Inr None, Routine (Some ''liga'') [Substitution 4 8, Substitution 4 8] (Some 8) (Some [(''latn'', ''*'')]) [''c''])"
  using arrange_homogeneous [of "Routine (Some ''liga'') [Substitution 4 8, Substitution 4 8] None (Some [(''latn'', ''*'')]) [''c'']" TSubstitution "KInt 4" 8]
  by (simp add: language_scopes_def set_flags_def)

section \<open>Termination of the serialisation\<close>

text \<open>
  Every child that \<open>arrange\<close> returns has a smaller \<open>arrange_measure\<close> than its parent:
  a child of the subtype pass has one subtype key where the parent has two or more, a child
  of the language pass one scope where the parent has two or more, a child of the flags
  pass one flags value where the parent has two or more, and none of the three counts grows.
\<close>

lemma dict_extend_pkeys:
  "map (\<lambda>a. p (fst a)) (dict_extend (\<lambda>a b. p a = p b) k vs d) =
     (if p k \<in> (\<lambda>a. p (fst a)) ` set d then map (\<lambda>a. p (fst a)) d else map (\<lambda>a. p (fst a)) d @ [p k])"
  by (induction d) force+

lemma dict_extend_members_key:
  "(k', v) \<in> set (dict_extend eq k vs d) \<Longrightarrow>
     (k', v) \<in> set d \<or> (\<exists>w. (k', w) \<in> set d \<and> eq k' k \<and> v = w @ vs) \<or> (k' = k \<and> v = vs)"
  by (induction d) (auto split: if_splits)

lemma fold_keys:
  "map (\<lambda>a. p (fst a)) (foldl (\<lambda>d x. dict_extend (\<lambda>a b. p a = p b) (kf x) (vf x) d) [] xs) =
     first_seen (map (\<lambda>x. p (kf x)) xs)"
proof (induction xs rule: rev_induct)
  case Nil
  then show ?case by (simp add: first_seen_def)
next
  case (snoc x xs)
  have "(\<lambda>a. p (fst a)) ` set (foldl (\<lambda>d x. dict_extend (\<lambda>a b. p a = p b) (kf x) (vf x) d) [] xs)
      = set (map (\<lambda>a. p (fst a)) (foldl (\<lambda>d x. dict_extend (\<lambda>a b. p a = p b) (kf x) (vf x) d) [] xs))"
    by simp
  also have "\<dots> = (\<lambda>x. p (kf x)) ` set xs"
    unfolding snoc.IH by (simp add: first_seen_def)
  finally show ?case
    by (simp add: dict_extend_pkeys snoc.IH first_seen_def)
qed

lemma fold_count:
  "length (foldl (\<lambda>d x. dict_extend (\<lambda>a b. p a = p b) (kf x) (vf x) d) [] xs) = card (p ` kf ` set xs)"
proof -
  have "length (foldl (\<lambda>d x. dict_extend (\<lambda>a b. p a = p b) (kf x) (vf x) d) [] xs) =
      length (map (\<lambda>a. p (fst a)) (foldl (\<lambda>d x. dict_extend (\<lambda>a b. p a = p b) (kf x) (vf x) d) [] xs))"
    by simp
  also have "\<dots> = card (set (map (\<lambda>x. p (kf x)) xs))"
    unfolding fold_keys by (simp add: first_seen_def length_remdups_card_conv)
  finally show ?thesis by (simp add: image_image)
qed

lemma fold_members:
  "(k, v) \<in> set (foldl (\<lambda>d x. dict_extend (\<lambda>a b. p a = p b) (kf x) (vf x) d) [] xs) \<Longrightarrow>
     set v \<subseteq> (\<Union>x\<in>set xs. set (vf x)) \<and> (\<forall>y\<in>set v. \<exists>x\<in>set xs. y \<in> set (vf x) \<and> p (kf x) = p k)"
proof (induction xs arbitrary: k v rule: rev_induct)
  case Nil
  then show ?case by simp
next
  case (snoc x xs)
  let ?d = "foldl (\<lambda>d x. dict_extend (\<lambda>a b. p a = p b) (kf x) (vf x) d) [] xs"
  from snoc.prems have "(k, v) \<in> set (dict_extend (\<lambda>a b. p a = p b) (kf x) (vf x) ?d)" by simp
  then consider "(k, v) \<in> set ?d" | w where "(k, w) \<in> set ?d" "p k = p (kf x)" "v = w @ vf x"
    | "k = kf x" "v = vf x"
    using dict_extend_members_key by fastforce
  then show ?case
  proof cases
    case 1
    from snoc.IH [OF 1] show ?thesis by auto
  next
    case 2
    from snoc.IH [OF 2(1)] 2(2,3) show ?thesis by auto
  next
    case 3
    then show ?thesis by auto
  qed
qed

lemma child_smaller:
  assumes "arrange self = (Inr arranged, self1)" and "truthy_split arranged" and "c \<in> set (the arranged)"
  shows "arrange_measure c < arrange_measure self"
proof -
  let ?R = "rules self"
  have fin: "finite (key_int ` lookup_type ` set ?R)" "finite (flags_of ` set ?R)" by simp_all
  have sub: "arrange_measure c < arrange_measure self"
    if s: "set (rules c) \<subseteq> set ?R"
      and d: "card (key_int ` lookup_type ` set (rules c)) \<le> 1 \<and> 2 \<le> card (key_int ` lookup_type ` set ?R)
                \<and> card (set (language_scopes c)) \<le> card (set (language_scopes self))
            \<or> card (set (language_scopes c)) \<le> 1 \<and> 2 \<le> card (set (language_scopes self))
            \<or> card (flags_of ` set (rules c)) \<le> 1 \<and> 2 \<le> card (flags_of ` set ?R)
                \<and> card (set (language_scopes c)) \<le> card (set (language_scopes self))"
  proof -
    from s have "card (key_int ` lookup_type ` set (rules c)) \<le> card (key_int ` lookup_type ` set ?R)"
      "card (flags_of ` set (rules c)) \<le> card (flags_of ` set ?R)"
      by (auto intro!: card_mono)
    with d show ?thesis unfolding arrange_measure_def by linarith
  qed
  have type_none: "\<not> truthy_split st" if "arrange_by_type self = Inr st" for st
    using that arrange_by_type_loop_nil [of self "bucket_by (=) type_of ?R"]
    by (cases st) (auto simp: arrange_by_type_def Let_def split: if_splits sum.splits)
  have one_key: "card (f ` set v) \<le> 1" if "\<forall>y\<in>set v. f y = a" for f :: "rule \<Rightarrow> 'x" and v a
  proof -
    from that have "f ` set v \<subseteq> {a}" by auto
    then have "card (f ` set v) \<le> card {a}" by (intro card_mono) auto
    then show ?thesis by simp
  qed
  from assms(1) consider
      (lt) "arrange_by_lookup_type self = arranged"
    | (lang) "arrange_by_language self = arranged"
    | (fl) "fst (arrange_by_flags self) = arranged"
    using type_none assms(2)
    by (auto simp: arrange_def Let_def split: sum.splits if_splits prod.splits)
  then show ?thesis
  proof cases
    case lt
    let ?d = "bucket_by py_eq lookup_type ?R"
    have d: "?d = foldl (\<lambda>d x. dict_extend (\<lambda>a b. key_int a = key_int b) (lookup_type x) [x] d) [] ?R"
      by (simp add: bucket_by_def py_eq_def [abs_def])
    from lt assms(2,3) obtain k v where kv: "(k, v) \<in> set ?d"
      and c: "c = name_child self (str_key k) (Routine_init v)" and len: "length ?d \<noteq> 1"
      by (auto simp: arrange_by_lookup_type_def Let_def split: if_splits)
    from kv have "?d \<noteq> []" by auto
    with len have "2 \<le> length ?d" by (cases ?d) (auto simp: Suc_le_eq)
    then have big: "2 \<le> card (key_int ` lookup_type ` set ?R)"
      unfolding d fold_count .
    from fold_members [OF kv [unfolded d]] have v: "set v \<subseteq> set ?R" "\<forall>y\<in>set v. key_int (lookup_type y) = key_int k"
      by auto
    have rc: "rules c = v" "languages c = None"
      by (simp_all add: c name_child_def set_name_def Routine_init_def)
    have "card ((key_int \<circ> lookup_type) ` set v) \<le> 1"
      using v(2) by (intro one_key [of v _ "key_int k"]) simp
    then have "card (key_int ` lookup_type ` set (rules c)) \<le> 1" by (simp add: rc image_image)
    with big v(1) rc show ?thesis
      by (intro sub) (simp_all add: language_scopes_def)
  next
    case lang
    from lang assms(2) obtain ls where ls: "languages self = Some ls"
      by (auto simp: arrange_by_language_def split: option.splits)
    let ?d = "language_buckets self ls"
    have d: "?d = foldl (\<lambda>d x. dict_extend (\<lambda>a b. id a = id b) (expand_lang x) ?R d) [] ls"
      by (simp add: language_buckets_def)
    from lang assms(2,3) ls obtain k v where kv: "(k, v) \<in> set ?d"
      and c: "c = name_child self (fst k @ ''_'' @ snd k) (set_languages (Some [k]) (Routine_init v))"
      and len: "\<not> length ?d < 2"
      by (auto simp: arrange_by_language_def Let_def split: if_splits)
    from len have big: "2 \<le> card (set (language_scopes self))"
      unfolding d fold_count by (simp add: language_scopes_def ls)
    from fold_members [OF kv [unfolded d]] have v: "set v \<subseteq> set ?R" by auto
    have rc: "rules c = v" "languages c = Some [k]"
      by (simp_all add: c name_child_def set_name_def set_languages_def Routine_init_def)
    have "card (set (language_scopes c)) \<le> 1"
      by (simp add: language_scopes_def rc)
    with big v rc show ?thesis by (intro sub) simp_all
  next
    case fl
    let ?d = "bucket_by (=) flags_of ?R"
    have d: "?d = foldl (\<lambda>d x. dict_extend (\<lambda>a b. id a = id b) (flags_of x) [x] d) [] ?R"
      by (simp add: bucket_by_def)
    from fl assms(2,3) obtain k v where kv: "(k, v) \<in> set ?d"
      and c: "c = name_child self (str_int k) (set_flags (Some k) (Routine_init v))" and len: "length ?d \<noteq> 1"
      by (auto simp: arrange_by_flags_def Let_def split: if_splits)
    from kv have "?d \<noteq> []" by auto
    with len have "2 \<le> length ?d" by (cases ?d) (auto simp: Suc_le_eq)
    then have big: "2 \<le> card (flags_of ` set ?R)"
      unfolding d fold_count by simp
    from fold_members [OF kv [unfolded d]] have v: "set v \<subseteq> set ?R" "\<forall>y\<in>set v. flags_of y = k"
      by auto
    have rc: "rules c = v" "languages c = None"
      by (simp_all add: c name_child_def set_name_def set_flags_def Routine_init_def)
    have "card (flags_of ` set v) \<le> 1"
      using v(2) by (rule one_key)
    with big v(1) rc show ?thesis
      by (intro sub) (simp_all add: language_scopes_def)
  qed
qed


termination Routine_asFeaAST
proof (relation "measure (\<lambda>(other, self). arrange_measure self)")
  show "wf (measure (\<lambda>(other, self). arrange_measure self))" by simp
next
  fix other :: "rule \<Rightarrow> error + stmt" and self f x y x2 c
  assume "(x, y) = arrange self" and "x = Inr x2" and "truthy_split x2" and "c \<in> set (the x2)"
  then have "arrange_measure c < arrange_measure self"
    using child_smaller [of self x2 y c] by simp
  then show "((other, c), (other, self)) \<in> measure (\<lambda>(other, self). arrange_measure self)"
    by simp
qed

declare Routine_asFeaAST.simps [simp del]

section \<open>Properties of feaPreamble\<close>

subsection \<open>Named classes\<close>

lemma gensym_fields:
  "scratch_glyphclasses (snd (gensym ff)) = scratch_glyphclasses ff \<and>
   scratch_synthesised_lookups (snd (gensym ff)) = scratch_synthesised_lookups ff \<and>
   namedClasses (snd (gensym ff)) = namedClasses ff"
  by (simp add: gensym_def Let_def)

lemma class_for_ok:
  assumes "scratch_glyphclasses ff = Some c"
  shows "\<exists>n ff' c'. class_for gc ff = Inr (n, ff') \<and> scratch_glyphclasses ff' = Some c' \<and>
           c \<subseteq>\<^sub>m c' \<and> c' (sort gc) = Some n \<and>
           scratch_synthesised_lookups ff' = scratch_synthesised_lookups ff"
proof (cases "c (sort gc)")
  case None
  obtain n ff1 where g: "gensym ff = (n, ff1)" by (cases "gensym ff")
  with gensym_fields [of ff] have "scratch_synthesised_lookups ff1 = scratch_synthesised_lookups ff"
    by simp
  moreover from None have "c \<subseteq>\<^sub>m c(sort gc \<mapsto> ''class'' @ n)"
    by (simp add: map_le_def dom_def)
  ultimately show ?thesis using assms None g
    by (simp add: class_for_def Let_def)
next
  case (Some n)
  with assms show ?thesis by (simp add: class_for_def)
qed

lemma replaced_cong:
  assumes "c \<subseteq>\<^sub>m c'" and "\<forall>gc\<in>set i. 5 < length gc \<longrightarrow> sort gc \<in> dom c"
  shows "replaced (\<lambda>k. the (c' k)) i = replaced (\<lambda>k. the (c k)) i"
  unfolding replaced_def
proof (rule map_cong [OF refl])
  fix gc assume "gc \<in> set i"
  with assms(2) have "5 < length gc \<longrightarrow> sort gc \<in> dom c" by blast
  with assms(1) show "(if 5 < length gc then [CHR ''@'' # the (c' (sort gc))] else gc) =
      (if 5 < length gc then [CHR ''@'' # the (c (sort gc))] else gc)"
    by (auto simp: map_le_def)
qed

lemma replaceLong_ok:
  assumes "scratch_glyphclasses ff = Some c"
  shows "\<exists>ff' c'. replaceLongWithClasses i ff = Inr (replaced (\<lambda>k. the (c' k)) i, ff') \<and>
           scratch_glyphclasses ff' = Some c' \<and> c \<subseteq>\<^sub>m c' \<and>
           (\<forall>gc\<in>set i. 5 < length gc \<longrightarrow> sort gc \<in> dom c') \<and>
           scratch_synthesised_lookups ff' = scratch_synthesised_lookups ff"
  using assms
proof (induction i arbitrary: ff c)
  case Nil
  then show ?case by (simp add: replaced_def)
next
  case (Cons gc rest)
  show ?case
  proof (cases "5 < length gc")
    case True
    from class_for_ok [OF Cons.prems, of gc] obtain n ff1 c1 where
      cf: "class_for gc ff = Inr (n, ff1)" and g1: "scratch_glyphclasses ff1 = Some c1"
      and le1: "c \<subseteq>\<^sub>m c1" and n: "c1 (sort gc) = Some n"
      and s1: "scratch_synthesised_lookups ff1 = scratch_synthesised_lookups ff"
      by blast
    from Cons.IH [OF g1] obtain ff' c' where
      r: "replaceLongWithClasses rest ff1 = Inr (replaced (\<lambda>k. the (c' k)) rest, ff')"
      and g': "scratch_glyphclasses ff' = Some c'" and le': "c1 \<subseteq>\<^sub>m c'"
      and d': "\<forall>gc\<in>set rest. 5 < length gc \<longrightarrow> sort gc \<in> dom c'"
      and s': "scratch_synthesised_lookups ff' = scratch_synthesised_lookups ff1"
      by blast
    from n le' have n': "c' (sort gc) = Some n"
      by (metis domI map_le_def)
    have "replaceLongWithClasses (gc # rest) ff = Inr (replaced (\<lambda>k. the (c' k)) (gc # rest), ff')"
      using True cf r n' by (simp add: replaced_def)
    moreover have "c \<subseteq>\<^sub>m c'" using le1 le' by (rule map_le_trans)
    moreover have "\<forall>x\<in>set (gc # rest). 5 < length x \<longrightarrow> sort x \<in> dom c'"
      using d' n' by auto
    ultimately show ?thesis using g' s' s1 by auto
  next
    case False
    from Cons.IH [OF Cons.prems] obtain ff' c' where
      r: "replaceLongWithClasses rest ff = Inr (replaced (\<lambda>k. the (c' k)) rest, ff')"
      and g': "scratch_glyphclasses ff' = Some c'" and le': "c \<subseteq>\<^sub>m c'"
      and d': "\<forall>gc\<in>set rest. 5 < length gc \<longrightarrow> sort gc \<in> dom c'"
      and s': "scratch_synthesised_lookups ff' = scratch_synthesised_lookups ff"
      by blast
    have "replaceLongWithClasses (gc # rest) ff = Inr (replaced (\<lambda>k. the (c' k)) (gc # rest), ff')"
      using False r by (simp add: replaced_def)
    then show ?thesis using g' le' d' s' False by auto
  qed
qed

subsection \<open>The loop over the lookups\<close>

lemma synthname_of_Inr:
  "synthname_of a b = Inr k \<longleftrightarrow>
     (\<exists>A B n m. a = Some A \<and> b = Some B \<and> name A = Some n \<and> name B = Some m \<and> k = n @ ''_'' @ m)"
  by (auto simp: synthname_of_def split: option.splits)

lemma synthesise_pair_inv:
  assumes "synthesise_pair E a b ff = (err, l, ff', rv, calls)"
    and "scratch_synthesised_lookups ff = Some c"
  shows "\<exists>c'. scratch_synthesised_lookups ff' = Some c' \<and> c \<subseteq>\<^sub>m c' \<and>
           scratch_glyphclasses ff' = scratch_glyphclasses ff"
  using assms
  by (auto simp: synthesise_pair_def Let_def map_le_def
      split: sum.splits option.splits if_splits prod.splits)

lemma synthesise_pair_calls:
  assumes "synthesise_pair E a b ff = (err, l, ff', rv, calls)"
    and "scratch_synthesised_lookups ff = Some c"
    and "(X, Y) \<in> set calls" and "name X = Some n" and "name Y = Some m"
  shows "c (n @ ''_'' @ m) = None \<and> c (m @ ''_'' @ n) = None"
  using assms
  by (auto simp: synthesise_pair_def Let_def synthname_of_Inr
      split: sum.splits option.splits if_splits prod.splits)

lemma synthesise_pair_hit:
  assumes "synthesise_pair E (Some A) (Some B) ff = (None, l, ff', rv, calls)"
    and "scratch_synthesised_lookups ff' = Some c'"
    and "name A = Some n" and "name B = Some m"
    and "compatibleRules E A B \<or> (\<exists>c. scratch_synthesised_lookups ff = Some c \<and> (c (n @ ''_'' @ m) \<noteq> None \<or> c (m @ ''_'' @ n) \<noteq> None))"
  shows "\<exists>s. l = Some [Some s] \<and> (c' (n @ ''_'' @ m) = Some s \<or> c' (m @ ''_'' @ n) = Some s)"
  using assms
  by (auto simp: synthesise_pair_def Let_def synthname_of_def
      split: sum.splits option.splits if_splits prod.splits)

lemma loop_skip:
  assumes "\<forall>a b. l \<noteq> Some [a, b]"
  shows "feaPreamble_loop E (l # rest) ff =
     (case feaPreamble_loop E rest ff of
        (err, rest', ff', rv, calls) \<Rightarrow> (err, l # rest', ff', rv, calls))"
  using assms by (cases "(E, l # rest, ff)" rule: feaPreamble_loop.cases) (auto split: prod.splits)

lemma loop_cache:
  assumes "feaPreamble_loop E lks ff = (err, lks', ff', rv, calls)"
    and "scratch_synthesised_lookups ff = Some c"
  shows "\<exists>c'. scratch_synthesised_lookups ff' = Some c' \<and> c \<subseteq>\<^sub>m c' \<and>
           scratch_glyphclasses ff' = scratch_glyphclasses ff \<and> length lks' = length lks"
  using assms
proof (induction lks arbitrary: ff c err lks' ff' rv calls)
  case Nil
  then show ?case by auto
next
  case (Cons l rest)
  show ?case
  proof (cases "\<exists>a b. l = Some [a, b]")
    case True
    then obtain a b where l: "l = Some [a, b]" by blast
    obtain e1 l1 ff1 rv1 calls1 where sp: "synthesise_pair E a b ff = (e1, l1, ff1, rv1, calls1)"
      by (metis prod_cases5)
    from synthesise_pair_inv [OF sp Cons.prems(2)] obtain c1 where
      c1: "scratch_synthesised_lookups ff1 = Some c1" "c \<subseteq>\<^sub>m c1"
        "scratch_glyphclasses ff1 = scratch_glyphclasses ff" by blast
    show ?thesis
    proof (cases e1)
      case (Some e)
      with Cons.prems(1) l sp c1 show ?thesis by auto
    next
      case None
      obtain e2 l2 ff2 rv2 calls2 where lp: "feaPreamble_loop E rest ff1 = (e2, l2, ff2, rv2, calls2)"
        by (metis prod_cases5)
      from Cons.IH [OF lp c1(1)] obtain c2 where
        "scratch_synthesised_lookups ff2 = Some c2" "c1 \<subseteq>\<^sub>m c2"
        "scratch_glyphclasses ff2 = scratch_glyphclasses ff1" "length l2 = length rest" by blast
      moreover from this c1 have "c \<subseteq>\<^sub>m c2" by (blast intro: map_le_trans)
      ultimately show ?thesis using Cons.prems(1) l sp None lp c1 by auto
    qed
  next
    case False
    obtain e2 l2 ff2 rv2 calls2 where lp: "feaPreamble_loop E rest ff = (e2, l2, ff2, rv2, calls2)"
      by (metis prod_cases5)
    from Cons.IH [OF lp Cons.prems(2)] False Cons.prems(1) lp show ?thesis
      by (auto simp: loop_skip)
  qed
qed

lemma map_le_None: "c \<subseteq>\<^sub>m c' \<Longrightarrow> c' k = None \<Longrightarrow> c k = None"
  by (metis domIff map_le_def)

lemma map_le_Some: "c \<subseteq>\<^sub>m c' \<Longrightarrow> c k = Some v \<Longrightarrow> c' k = Some v"
  by (metis domI map_le_def)

lemma loop_calls:
  assumes "feaPreamble_loop E lks ff = (err, lks', ff', rv, calls)"
    and "scratch_synthesised_lookups ff = Some c"
    and "(X, Y) \<in> set calls" and "name X = Some n" and "name Y = Some m"
  shows "c (n @ ''_'' @ m) = None \<and> c (m @ ''_'' @ n) = None"
  using assms(1,2,3)
proof (induction lks arbitrary: ff c err lks' ff' rv calls)
  case Nil
  then show ?case by auto
next
  case (Cons l rest)
  show ?case
  proof (cases "\<exists>a b. l = Some [a, b]")
    case True
    then obtain a b where l: "l = Some [a, b]" by blast
    obtain e1 l1 ff1 rv1 calls1 where sp: "synthesise_pair E a b ff = (e1, l1, ff1, rv1, calls1)"
      by (metis prod_cases5)
    from synthesise_pair_inv [OF sp Cons.prems(2)] obtain c1 where
      c1: "scratch_synthesised_lookups ff1 = Some c1" "c \<subseteq>\<^sub>m c1" by blast
    note first = synthesise_pair_calls [OF sp Cons.prems(2) _ assms(4,5)]
    show ?thesis
    proof (cases e1)
      case (Some e)
      with Cons.prems l sp first show ?thesis by auto
    next
      case None
      obtain e2 l2 ff2 rv2 calls2 where lp: "feaPreamble_loop E rest ff1 = (e2, l2, ff2, rv2, calls2)"
        by (metis prod_cases5)
      from Cons.prems(1,3) l sp None lp have "(X, Y) \<in> set calls1 \<or> (X, Y) \<in> set calls2" by auto
      then show ?thesis
      proof
        assume "(X, Y) \<in> set calls1"
        then show ?thesis by (rule first)
      next
        assume "(X, Y) \<in> set calls2"
        from Cons.IH [OF lp c1(1) this] c1(2) show ?thesis
          by (blast intro: map_le_None)
      qed
    qed
  next
    case False
    obtain e2 l2 ff2 rv2 calls2 where lp: "feaPreamble_loop E rest ff = (e2, l2, ff2, rv2, calls2)"
      by (metis prod_cases5)
    from Cons.prems(1,3) False lp have "(X, Y) \<in> set calls2" by (auto simp: loop_skip)
    from Cons.IH [OF lp Cons.prems(2) this] show ?thesis .
  qed
qed

lemma loop_hit:
  assumes "feaPreamble_loop E lks ff = (None, lks', ff', rv, calls)"
    and "scratch_synthesised_lookups ff = Some c"
    and "scratch_synthesised_lookups ff' = Some c'"
    and "j < length lks" and "lks ! j = Some [Some A, Some B]"
    and "name A = Some n" and "name B = Some m"
    and "compatibleRules E A B \<or> c (n @ ''_'' @ m) \<noteq> None \<or> c (m @ ''_'' @ n) \<noteq> None"
  shows "\<exists>s. lks' ! j = Some [Some s] \<and> (c' (n @ ''_'' @ m) = Some s \<or> c' (m @ ''_'' @ n) = Some s)"
  using assms(1,2,3,4,5,8)
proof (induction lks arbitrary: ff c lks' rv calls j)
  case Nil
  then show ?case by auto
next
  case (Cons l rest)
  show ?case
  proof (cases "\<exists>a b. l = Some [a, b]")
    case True
    then obtain a b where l: "l = Some [a, b]" by blast
    obtain e1 l1 ff1 rv1 calls1 where sp: "synthesise_pair E a b ff = (e1, l1, ff1, rv1, calls1)"
      by (metis prod_cases5)
    from synthesise_pair_inv [OF sp Cons.prems(2)] obtain c1 where
      c1: "scratch_synthesised_lookups ff1 = Some c1" "c \<subseteq>\<^sub>m c1" by blast
    obtain e2 l2 ff2 rv2 calls2 where lp: "feaPreamble_loop E rest ff1 = (e2, l2, ff2, rv2, calls2)"
      by (metis prod_cases5)
    from Cons.prems(1) l sp lp have e1: "e1 = None" and e2: "e2 = None"
      and lks': "lks' = l1 # l2" and ff2: "ff2 = ff'"
      by (auto split: option.splits)
    from loop_cache [OF lp c1(1)] ff2 Cons.prems(3) have le: "c1 \<subseteq>\<^sub>m c'" by auto
    show ?thesis
    proof (cases j)
      case 0
      with Cons.prems(5) l have ab: "a = Some A" "b = Some B" by auto
      from synthesise_pair_hit [OF sp [unfolded ab e1] c1(1) assms(6,7)] Cons.prems(2,6)
      obtain s where "l1 = Some [Some s]" "c1 (n @ ''_'' @ m) = Some s \<or> c1 (m @ ''_'' @ n) = Some s"
        by auto
      with le 0 lks' show ?thesis by (auto dest: map_le_Some)
    next
      case (Suc i)
      from Cons.prems(6) c1(2) have
        "compatibleRules E A B \<or> c1 (n @ ''_'' @ m) \<noteq> None \<or> c1 (m @ ''_'' @ n) \<noteq> None"
        by (auto dest: map_le_None)
      from Cons.IH [OF lp [unfolded e2 ff2] c1(1) Cons.prems(3) _ _ this, of i] Cons.prems(4,5) Suc lks'
      show ?thesis by auto
    qed
  next
    case False
    obtain e2 l2 ff2 rv2 calls2 where lp: "feaPreamble_loop E rest ff = (e2, l2, ff2, rv2, calls2)"
      by (metis prod_cases5)
    from Cons.prems(1) False lp have e2: "e2 = None" and lks': "lks' = l # l2" and ff2: "ff2 = ff'"
      by (auto simp: loop_skip)
    from False Cons.prems(5) obtain i where Suc: "j = Suc i" by (cases j) auto
    from Cons.IH [OF lp [unfolded e2 ff2] Cons.prems(2,3) _ _ Cons.prems(6), of i] Cons.prems(4,5) Suc lks'
    show ?thesis by auto
  qed
qed


subsection \<open>The table of named classes\<close>

lemma digit_char_value: "d < 10 \<Longrightarrow> of_char (digit_char d) - 48 = d"
proof -
  assume "d < 10"
  then have "d \<in> {0, 1, 2, 3, 4, 5, 6, 7, 8, 9}" by auto
  then show ?thesis by (elim insertE) (simp_all add: digit_char_def)
qed

lemma str_nat_value: "foldl (\<lambda>a c. 10 * a + (of_char c - 48)) 0 (str_nat n) = n"
proof (induction n rule: str_nat.induct)
  case (1 n)
  show ?case
  proof (cases "n < 10")
    case True
    then show ?thesis by (subst str_nat.simps) (simp add: digit_char_value)
  next
    case False
    with 1 show ?thesis
      by (subst str_nat.simps) (simp add: digit_char_value)
  qed
qed

lemma str_nat_inj: "str_nat n = str_nat m \<Longrightarrow> n = m"
proof -
  assume "str_nat n = str_nat m"
  then have "foldl (\<lambda>a c. 10 * a + (of_char c - 48)) (0::nat) (str_nat n) =
      foldl (\<lambda>a c. 10 * a + (of_char c - 48)) (0::nat) (str_nat m)" by (rule arg_cong)
  then show "n = m" by (simp only: str_nat_value)
qed

lemma str_int_inj: "0 \<le> i \<Longrightarrow> 0 \<le> j \<Longrightarrow> str_int i = str_int j \<Longrightarrow> i = j"
proof -
  assume i: "0 \<le> i" and j: "0 \<le> j" and eq: "str_int i = str_int j"
  from i j eq have "str_nat (nat i) = str_nat (nat j)" by (simp add: str_int_def)
  then have "nat i = nat j" by (rule str_nat_inj)
  with i j show "i = j" by simp
qed

lemma gensym_counter:
  "fst (gensym ff) = str_int (counter ff + 1) \<and> counter (snd (gensym ff)) = counter ff + 1"
  by (auto simp: gensym_def counter_def Let_def split: option.splits)

lemma class_for_registered:
  assumes reg: "classes_registered ff" and cf: "class_for gc ff = Inr (n, ff')"
  shows "classes_registered ff'"
proof -
  from cf obtain c where c: "scratch_glyphclasses ff = Some c"
    by (auto simp: class_for_def split: option.splits)
  then have cc: "class_cache ff = c" by (simp add: class_cache_def)
  show ?thesis
  proof (cases "c (sort gc)")
    case (Some m)
    with cf c have "ff' = ff" by (simp add: class_for_def)
    with reg show ?thesis by simp
  next
    case None
    obtain s ff1 where g: "gensym ff = (s, ff1)" by (cases "gensym ff")
    with gensym_counter [of ff] gensym_fields [of ff]
    have s: "s = str_int (counter ff + 1)" and c1: "counter ff1 = counter ff + 1"
      and n1: "namedClasses ff1 = namedClasses ff" by simp_all
    from cf c None g have n: "n = ''class'' @ s"
      and ff': "ff' = ff1\<lparr>namedClasses := (namedClasses ff1)(''class'' @ s \<mapsto> gc),
                          scratch_glyphclasses := Some (c(sort gc \<mapsto> ''class'' @ s))\<rparr>"
      by (auto simp: class_for_def Let_def)
    have cnt: "counter ff' = counter ff + 1"
      using c1 by (simp add: ff' counter_def)
    have cache: "class_cache ff' = c(sort gc \<mapsto> ''class'' @ s)"
      by (simp add: ff' class_cache_def)
    have tab: "namedClasses ff' = (namedClasses ff)(''class'' @ s \<mapsto> gc)"
      by (simp add: ff' n1)
    from reg have nonneg: "0 \<le> counter ff" by (simp add: classes_registered_def)
    have "(\<exists>gc'. namedClasses ff' m = Some gc' \<and> sort gc' = k) \<and>
          (\<exists>j. 1 \<le> j \<and> j \<le> counter ff' \<and> m = ''class'' @ str_int j)"
      if km: "class_cache ff' k = Some m" for k m
    proof (cases "k = sort gc")
      case True
      with km cache have m: "m = ''class'' @ s" by simp
      have "1 \<le> counter ff + 1 \<and> counter ff + 1 \<le> counter ff' \<and> m = ''class'' @ str_int (counter ff + 1)"
        using nonneg cnt m s by simp
      then have "\<exists>j. 1 \<le> j \<and> j \<le> counter ff' \<and> m = ''class'' @ str_int j" by blast
      moreover have "namedClasses ff' m = Some gc \<and> sort gc = k"
        using True tab m by simp
      ultimately show ?thesis by blast
    next
      case False
      with km cache cc have "class_cache ff k = Some m" by simp
      with reg obtain gc' j where old: "namedClasses ff m = Some gc'" "sort gc' = k"
        "1 \<le> j" "j \<le> counter ff" "m = ''class'' @ str_int j"
        unfolding classes_registered_def by blast
      from old(3,4) nonneg have "str_int j \<noteq> str_int (counter ff + 1)"
        using str_int_inj [of j "counter ff + 1"] by auto
      with old(5) s have "m \<noteq> ''class'' @ s" by simp
      with old tab cnt show ?thesis by auto
    qed
    with nonneg cnt show ?thesis unfolding classes_registered_def by simp
  qed
qed

lemma replaceLong_registered:
  "classes_registered ff \<Longrightarrow> replaceLongWithClasses i ff = Inr (i', ff') \<Longrightarrow> classes_registered ff'"
proof (induction i arbitrary: ff i' ff')
  case Nil
  then show ?case by simp
next
  case (Cons gc rest)
  show ?case
  proof (cases "5 < length gc")
    case True
    with Cons.prems(2) obtain n ff1 rest' where cf: "class_for gc ff = Inr (n, ff1)"
      and r: "replaceLongWithClasses rest ff1 = Inr (rest', ff')"
      by (auto split: sum.splits)
    from class_for_registered [OF Cons.prems(1) cf] r show ?thesis by (rule Cons.IH)
  next
    case False
    with Cons.prems(2) obtain rest' where "replaceLongWithClasses rest ff = Inr (rest', ff')"
      by (auto split: sum.splits)
    with Cons.prems(1) show ?thesis by (rule Cons.IH)
  qed
qed

lemma synthesise_pair_fields:
  "synthesise_pair E a b ff = (err, l, ff', rv, calls) \<Longrightarrow>
     namedClasses ff' = namedClasses ff \<and> scratch_index ff' = scratch_index ff \<and>
     scratch_glyphclasses ff' = scratch_glyphclasses ff"
  by (auto simp: synthesise_pair_def Let_def split: sum.splits option.splits if_splits prod.splits)

lemma loop_fields:
  "feaPreamble_loop E lks ff = (err, lks', ff', rv, calls) \<Longrightarrow>
     namedClasses ff' = namedClasses ff \<and> scratch_index ff' = scratch_index ff \<and>
     scratch_glyphclasses ff' = scratch_glyphclasses ff"
proof (induction lks arbitrary: ff err lks' ff' rv calls)
  case Nil
  then show ?case by simp
next
  case (Cons l rest)
  show ?case
  proof (cases "\<exists>a b. l = Some [a, b]")
    case True
    then obtain a b where l: "l = Some [a, b]" by blast
    obtain e1 l1 ff1 rv1 calls1 where sp: "synthesise_pair E a b ff = (e1, l1, ff1, rv1, calls1)"
      by (metis prod_cases5)
    note f1 = synthesise_pair_fields [OF sp]
    show ?thesis
    proof (cases e1)
      case (Some e)
      with Cons.prems l sp f1 show ?thesis by auto
    next
      case None
      obtain e2 l2 ff2 rv2 calls2 where lp: "feaPreamble_loop E rest ff1 = (e2, l2, ff2, rv2, calls2)"
        by (metis prod_cases5)
      from Cons.IH [OF lp] f1 Cons.prems l sp None lp show ?thesis by auto
    qed
  next
    case False
    obtain e2 l2 ff2 rv2 calls2 where lp: "feaPreamble_loop E rest ff = (e2, l2, ff2, rv2, calls2)"
      by (metis prod_cases5)
    from Cons.IH [OF lp] False Cons.prems lp show ?thesis by (auto simp: loop_skip)
  qed
qed

lemma classes_registered_cong:
  "namedClasses ff' = namedClasses ff \<Longrightarrow> scratch_index ff' = scratch_index ff \<Longrightarrow>
   class_cache ff' = class_cache ff \<Longrightarrow> classes_registered ff' = classes_registered ff"
  by (simp add: classes_registered_def counter_def)

subsection \<open>One call in terms of its parts\<close>

lemma feaPreamble_shape:
  obtains ff3 g where
    "scratch_glyphclasses ff3 = Some g"
    and "(case scratch_glyphclasses ff of None \<Rightarrow> Map.empty | Some c \<Rightarrow> c) \<subseteq>\<^sub>m g"
    and "scratch_synthesised_lookups ff3 = scratch_synthesised_lookups ff"
    and "\<forall>gc\<in>set (input self) \<union> set (precontext self) \<union> set (postcontext self).
           5 < length gc \<longrightarrow> sort gc \<in> dom g"
    and "classes_registered ff \<longrightarrow> classes_registered ff3"
    and "feaPreamble E self ff =
      (case feaPreamble_loop E (lookups self)
              (let ff4 = markRoutineUseInChains E ff3 in
               if scratch_synthesised_lookups ff4 = None
               then ff4\<lparr>scratch_synthesised_lookups := Some Map.empty\<rparr> else ff4) of
         (err, lks, ff6, rv, calls) \<Rightarrow>
           ((case err of Some e \<Rightarrow> Inl e | None \<Rightarrow> Inr rv),
            Chain (replaced (\<lambda>k. the (g k)) (precontext self)) (replaced (\<lambda>k. the (g k)) (input self))
              (replaced (\<lambda>k. the (g k)) (postcontext self)) lks (chain_flags self),
            ff6, calls))"
proof -
  define c0 where "c0 = (case scratch_glyphclasses ff of None \<Rightarrow> Map.empty | Some c \<Rightarrow> c)"
  define ff0 where "ff0 = (if scratch_glyphclasses ff = None
                 then ff\<lparr>scratch_glyphclasses := Some Map.empty\<rparr> else ff)"
  have g0: "scratch_glyphclasses ff0 = Some c0"
    and s0: "scratch_synthesised_lookups ff0 = scratch_synthesised_lookups ff"
    by (auto simp: ff0_def c0_def)
  from replaceLong_ok [OF g0, of "input self"] obtain ff1 c1 where
    r1: "replaceLongWithClasses (input self) ff0 = Inr (replaced (\<lambda>k. the (c1 k)) (input self), ff1)"
    and g1: "scratch_glyphclasses ff1 = Some c1" and le1: "c0 \<subseteq>\<^sub>m c1"
    and d1: "\<forall>gc\<in>set (input self). 5 < length gc \<longrightarrow> sort gc \<in> dom c1"
    and s1: "scratch_synthesised_lookups ff1 = scratch_synthesised_lookups ff0"
    by blast
  from replaceLong_ok [OF g1, of "precontext self"] obtain ff2 c2 where
    r2: "replaceLongWithClasses (precontext self) ff1 = Inr (replaced (\<lambda>k. the (c2 k)) (precontext self), ff2)"
    and g2: "scratch_glyphclasses ff2 = Some c2" and le2: "c1 \<subseteq>\<^sub>m c2"
    and d2: "\<forall>gc\<in>set (precontext self). 5 < length gc \<longrightarrow> sort gc \<in> dom c2"
    and s2: "scratch_synthesised_lookups ff2 = scratch_synthesised_lookups ff1"
    by blast
  from replaceLong_ok [OF g2, of "postcontext self"] obtain ff3 c3 where
    r3: "replaceLongWithClasses (postcontext self) ff2 = Inr (replaced (\<lambda>k. the (c3 k)) (postcontext self), ff3)"
    and g3: "scratch_glyphclasses ff3 = Some c3" and le3: "c2 \<subseteq>\<^sub>m c3"
    and d3: "\<forall>gc\<in>set (postcontext self). 5 < length gc \<longrightarrow> sort gc \<in> dom c3"
    and s3: "scratch_synthesised_lookups ff3 = scratch_synthesised_lookups ff2"
    by blast
  have i: "replaced (\<lambda>k. the (c1 k)) (input self) = replaced (\<lambda>k. the (c3 k)) (input self)"
    using replaced_cong [OF map_le_trans [OF le2 le3] d1] by simp
  have p: "replaced (\<lambda>k. the (c2 k)) (precontext self) = replaced (\<lambda>k. the (c3 k)) (precontext self)"
    using replaced_cong [OF le3 d2] by simp
  have "feaPreamble E self ff =
      (case feaPreamble_loop E (lookups self)
              (let ff4 = markRoutineUseInChains E ff3 in
               if scratch_synthesised_lookups ff4 = None
               then ff4\<lparr>scratch_synthesised_lookups := Some Map.empty\<rparr> else ff4) of
         (err, lks, ff6, rv, calls) \<Rightarrow>
           ((case err of Some e \<Rightarrow> Inl e | None \<Rightarrow> Inr rv),
            Chain (replaced (\<lambda>k. the (c3 k)) (precontext self)) (replaced (\<lambda>k. the (c3 k)) (input self))
              (replaced (\<lambda>k. the (c3 k)) (postcontext self)) lks (chain_flags self),
            ff6, calls))"
    unfolding feaPreamble_def ff0_def [symmetric]
    by (simp add: r1 r2 r3 i [symmetric] p [symmetric] Let_def set_input_def set_precontext_def
        set_postcontext_def set_lookups_def split: prod.splits)
  moreover have "c0 \<subseteq>\<^sub>m c3"
    using le1 le2 le3 by (blast intro: map_le_trans)
  moreover have "scratch_synthesised_lookups ff3 = scratch_synthesised_lookups ff"
    using s0 s1 s2 s3 by simp
  moreover have "\<forall>gc\<in>set (input self) \<union> set (precontext self) \<union> set (postcontext self).
           5 < length gc \<longrightarrow> sort gc \<in> dom c3"
    using d1 d2 d3 map_le_implies_dom_le [OF le2] map_le_implies_dom_le [OF le3] by blast
  moreover have "classes_registered ff \<longrightarrow> classes_registered ff3"
  proof
    assume "classes_registered ff"
    moreover have "class_cache ff0 = class_cache ff"
      by (auto simp: ff0_def class_cache_def)
    ultimately have "classes_registered ff0"
      using classes_registered_cong [of ff0 ff] by (simp add: ff0_def)
    then show "classes_registered ff3"
      using r1 r2 r3 by (blast intro: replaceLong_registered)
  qed
  ultimately show ?thesis
    using that [of ff3 c3] g3 by (simp add: c0_def)
qed

lemmas preamble_defs = preamble_result_def preamble_rule_def preamble_session_def preamble_calls_def

text \<open>What one call of feaPreamble does, in terms of the loop.\<close>

lemma feaPreamble_via_loop:
  "\<exists>g ff5 c5 err lks ff6 rv calls.
    (case scratch_glyphclasses ff of None \<Rightarrow> Map.empty | Some c \<Rightarrow> c) \<subseteq>\<^sub>m g
    \<and> (\<forall>gc\<in>set (input self) \<union> set (precontext self) \<union> set (postcontext self).
           5 < length gc \<longrightarrow> sort gc \<in> dom g)
    \<and> feaPreamble_loop E (lookups self) ff5 = (err, lks, ff6, rv, calls)
    \<and> scratch_synthesised_lookups ff5 = Some c5
    \<and> ((\<forall>s. scratch_synthesised_lookups (markRoutineUseInChains E s) = scratch_synthesised_lookups s) \<longrightarrow>
           (case scratch_synthesised_lookups ff of None \<Rightarrow> Map.empty | Some c \<Rightarrow> c) = c5)
    \<and> ((\<forall>s. scratch_glyphclasses (markRoutineUseInChains E s) = scratch_glyphclasses s) \<longrightarrow>
           scratch_glyphclasses ff6 = Some g)
    \<and> ((\<forall>s. scratch_glyphclasses (markRoutineUseInChains E s) = scratch_glyphclasses s \<and>
              namedClasses (markRoutineUseInChains E s) = namedClasses s \<and>
              scratch_index (markRoutineUseInChains E s) = scratch_index s) \<longrightarrow>
           classes_registered ff \<longrightarrow> classes_registered ff6)
    \<and> preamble_result E self ff = (case err of Some e \<Rightarrow> Inl e | None \<Rightarrow> Inr rv)
    \<and> preamble_rule E self ff =
            Chain (replaced (\<lambda>k. the (g k)) (precontext self)) (replaced (\<lambda>k. the (g k)) (input self))
              (replaced (\<lambda>k. the (g k)) (postcontext self)) lks (chain_flags self)
    \<and> preamble_session E self ff = ff6
    \<and> preamble_calls E self ff = calls"
proof -
  obtain ff3 g where g: "scratch_glyphclasses ff3 = Some g"
    and le: "(case scratch_glyphclasses ff of None \<Rightarrow> Map.empty | Some c \<Rightarrow> c) \<subseteq>\<^sub>m g"
    and s3: "scratch_synthesised_lookups ff3 = scratch_synthesised_lookups ff"
    and d: "\<forall>gc\<in>set (input self) \<union> set (precontext self) \<union> set (postcontext self).
           5 < length gc \<longrightarrow> sort gc \<in> dom g"
    and reg3: "classes_registered ff \<longrightarrow> classes_registered ff3"
    and fp: "feaPreamble E self ff =
      (case feaPreamble_loop E (lookups self)
              (let ff4 = markRoutineUseInChains E ff3 in
               if scratch_synthesised_lookups ff4 = None
               then ff4\<lparr>scratch_synthesised_lookups := Some Map.empty\<rparr> else ff4) of
         (err, lks, ff6, rv, calls) \<Rightarrow>
           ((case err of Some e \<Rightarrow> Inl e | None \<Rightarrow> Inr rv),
            Chain (replaced (\<lambda>k. the (g k)) (precontext self)) (replaced (\<lambda>k. the (g k)) (input self))
              (replaced (\<lambda>k. the (g k)) (postcontext self)) lks (chain_flags self),
            ff6, calls))"
    by (rule feaPreamble_shape [of ff self E])
  define ff4 where "ff4 = markRoutineUseInChains E ff3"
  define ff5 where "ff5 = (if scratch_synthesised_lookups ff4 = None
               then ff4\<lparr>scratch_synthesised_lookups := Some Map.empty\<rparr> else ff4)"
  define c5 where "c5 = (case scratch_synthesised_lookups ff4 of None \<Rightarrow> Map.empty | Some c \<Rightarrow> c)"
  obtain err lks ff6 rv calls where lp: "feaPreamble_loop E (lookups self) ff5 = (err, lks, ff6, rv, calls)"
    by (metis prod_cases5)
  have s5: "scratch_synthesised_lookups ff5 = Some c5"
    by (auto simp: ff5_def c5_def)
  have g5: "scratch_glyphclasses ff5 = scratch_glyphclasses ff4"
    by (simp add: ff5_def)
  from loop_cache [OF lp s5] have g6: "scratch_glyphclasses ff6 = scratch_glyphclasses ff5" by blast
  have fp': "feaPreamble E self ff = ((case err of Some e \<Rightarrow> Inl e | None \<Rightarrow> Inr rv),
            Chain (replaced (\<lambda>k. the (g k)) (precontext self)) (replaced (\<lambda>k. the (g k)) (input self))
              (replaced (\<lambda>k. the (g k)) (postcontext self)) lks (chain_flags self),
            ff6, calls)"
    using fp lp [unfolded ff5_def ff4_def] by (simp add: Let_def)
  have m1: "(\<forall>s. scratch_synthesised_lookups (markRoutineUseInChains E s) = scratch_synthesised_lookups s) \<longrightarrow>
           (case scratch_synthesised_lookups ff of None \<Rightarrow> Map.empty | Some c \<Rightarrow> c) = c5"
    by (simp add: c5_def ff4_def s3)
  have m2: "(\<forall>s. scratch_glyphclasses (markRoutineUseInChains E s) = scratch_glyphclasses s) \<longrightarrow>
           scratch_glyphclasses ff6 = Some g"
    by (simp add: g6 g5 ff4_def g)
  have m3: "(\<forall>s. scratch_glyphclasses (markRoutineUseInChains E s) = scratch_glyphclasses s \<and>
              namedClasses (markRoutineUseInChains E s) = namedClasses s \<and>
              scratch_index (markRoutineUseInChains E s) = scratch_index s) \<longrightarrow>
           classes_registered ff \<longrightarrow> classes_registered ff6"
  proof (intro impI)
    assume mark: "\<forall>s. scratch_glyphclasses (markRoutineUseInChains E s) = scratch_glyphclasses s \<and>
              namedClasses (markRoutineUseInChains E s) = namedClasses s \<and>
              scratch_index (markRoutineUseInChains E s) = scratch_index s"
      and "classes_registered ff"
    with reg3 have "classes_registered ff3" by simp
    moreover have "namedClasses ff6 = namedClasses ff3" "scratch_index ff6 = scratch_index ff3"
      "class_cache ff6 = class_cache ff3"
      using loop_fields [OF lp] mark by (auto simp: ff5_def ff4_def class_cache_def)
    ultimately show "classes_registered ff6"
      using classes_registered_cong [of ff6 ff3] by simp
  qed
  have "preamble_result E self ff = (case err of Some e \<Rightarrow> Inl e | None \<Rightarrow> Inr rv)"
    "preamble_rule E self ff =
            Chain (replaced (\<lambda>k. the (g k)) (precontext self)) (replaced (\<lambda>k. the (g k)) (input self))
              (replaced (\<lambda>k. the (g k)) (postcontext self)) lks (chain_flags self)"
    "preamble_session E self ff = ff6" "preamble_calls E self ff = calls"
    by (simp_all add: preamble_defs fp')
  with le d lp s5 m1 m2 m3 show ?thesis by blast
qed



subsection \<open>Sessions\<close>

lemma preamble_class_cache:
  assumes "\<forall>s. scratch_glyphclasses (markRoutineUseInChains E s) = scratch_glyphclasses s"
  shows "\<exists>g. scratch_glyphclasses (preamble_session E r ff) = Some g \<and> class_cache ff \<subseteq>\<^sub>m g"
  using feaPreamble_via_loop [of ff r E] assms by (auto simp: class_cache_def)

lemma preamble_merged_cache:
  assumes "\<forall>s. scratch_synthesised_lookups (markRoutineUseInChains E s) = scratch_synthesised_lookups s"
  shows "\<exists>c. scratch_synthesised_lookups (preamble_session E r ff) = Some c \<and>
           (case scratch_synthesised_lookups ff of None \<Rightarrow> Map.empty | Some c \<Rightarrow> c) \<subseteq>\<^sub>m c"
proof -
  from feaPreamble_via_loop [of ff r E] obtain ff5 c5 err lks ff6 rv calls where
    lp: "feaPreamble_loop E (lookups r) ff5 = (err, lks, ff6, rv, calls)"
    and s5: "scratch_synthesised_lookups ff5 = Some c5"
    and c5: "(\<forall>s. scratch_synthesised_lookups (markRoutineUseInChains E s) = scratch_synthesised_lookups s) \<longrightarrow>
           (case scratch_synthesised_lookups ff of None \<Rightarrow> Map.empty | Some c \<Rightarrow> c) = c5"
    and ses: "preamble_session E r ff = ff6"
    by blast
  from loop_cache [OF lp s5] c5 assms ses show ?thesis by auto
qed

lemma session_after_class_cache:
  assumes "\<forall>s. scratch_glyphclasses (markRoutineUseInChains E s) = scratch_glyphclasses s"
  shows "class_cache ff \<subseteq>\<^sub>m class_cache (session_after E rs ff)"
proof (induction rs arbitrary: ff)
  case Nil
  then show ?case by (simp add: session_after_def)
next
  case (Cons r rs)
  from preamble_class_cache [OF assms, of r ff]
  have "class_cache ff \<subseteq>\<^sub>m class_cache (preamble_session E r ff)"
    by (auto simp: class_cache_def)
  also have "\<dots> \<subseteq>\<^sub>m class_cache (session_after E rs (preamble_session E r ff))"
    by (rule Cons.IH)
  finally show ?case by (simp add: session_after_def)
qed

lemma session_after_merged_cache:
  assumes "\<forall>s. scratch_synthesised_lookups (markRoutineUseInChains E s) = scratch_synthesised_lookups s"
    and "scratch_synthesised_lookups ff = Some c"
  shows "\<exists>c'. scratch_synthesised_lookups (session_after E rs ff) = Some c' \<and> c \<subseteq>\<^sub>m c'"
  using assms(2)
proof (induction rs arbitrary: ff c)
  case Nil
  then show ?case by (simp add: session_after_def)
next
  case (Cons r rs)
  from preamble_merged_cache [OF assms(1), of r ff] Cons.prems obtain c1 where
    c1: "scratch_synthesised_lookups (preamble_session E r ff) = Some c1" "c \<subseteq>\<^sub>m c1" by auto
  from Cons.IH [OF c1(1)] obtain c' where
    "scratch_synthesised_lookups (session_after E rs (preamble_session E r ff)) = Some c'" "c1 \<subseteq>\<^sub>m c'"
    by blast
  with c1(2) show ?case by (auto simp: session_after_def intro: map_le_trans)
qed

lemma session_after_registered:
  assumes "\<forall>s. scratch_glyphclasses (markRoutineUseInChains E s) = scratch_glyphclasses s \<and>
              namedClasses (markRoutineUseInChains E s) = namedClasses s \<and>
              scratch_index (markRoutineUseInChains E s) = scratch_index s"
  shows "classes_registered ff \<Longrightarrow> classes_registered (session_after E rs ff)"
proof (induction rs arbitrary: ff)
  case Nil
  then show ?case by (simp add: session_after_def)
next
  case (Cons r rs)
  from feaPreamble_via_loop [of ff r E] assms Cons.prems
  have "classes_registered (preamble_session E r ff)" by auto
  then have "classes_registered (session_after E rs (preamble_session E r ff))" by (rule Cons.IH)
  then show ?case by (simp add: session_after_def)
qed

subsection \<open>Concrete runs\<close>

lemmas eval_defs = preamble_defs feaPreamble_def stub_externals_def new_session_def
  routine_A_def routine_B_def routine_C_def class_for_def gensym_def synthesise_pair_def synthname_of_def
  set_input_def set_precontext_def set_postcontext_def set_lookups_def set_name_def
  Routine_init_def str_int_def str_nat.simps digit_char_def Let_def

section \<open>Properties of the lowering of a chaining rule\<close>

lemma asFeaAST_no_lookups:
  assumes "\<forall>x\<in>set (lookups self). x = None"
  shows "asFeaAST self = (Inr (ignore_stmt self), self, [])"
  using assms by (auto simp: asFeaAST_def ignore_stmt_def list_ex_iff)

lemma names_only_present:
  "None \<notin> set lks \<Longrightarrow>
   names_only lks = Inr (map (\<lambda>lul. map (\<lambda>x. case x of None \<Rightarrow> None | Some r \<Rightarrow> name r) (the lul)) lks)"
  by (induction lks rule: names_only.induct) auto

lemma names_only_cases: "names_only lks = Inl TypeError \<or> (\<exists>ns. names_only lks = Inr ns)"
  by (induction lks rule: names_only.induct) auto

lemma more_than_one_present: "more_than_one x \<Longrightarrow> \<exists>l. x = Some l"
  by (cases x) simp_all

lemma asFeaAST_fallback_all_present:
  assumes "None \<notin> set (lookups self)" and "list_ex more_than_one (lookups self)"
  shows "asFeaAST self = (Inr (Comment ''# Unparsing failed''), set_lookups [] self,
           [''Can't currently express multiple lookups per position in AFDKO''])"
proof -
  from assms(2) have "list_ex (\<lambda>x. x \<noteq> None) (lookups self)" "lookups self \<noteq> []"
    by (auto simp: list_ex_iff dest: more_than_one_present)
  with assms show ?thesis
    by (simp add: asFeaAST_def chain_complex_def names_only_present Let_def)
qed






text \<open>
  C5 as stated fails: the cache key is the sorted class, duplicates included, so two long
  classes with the same glyphs as sets but different multiplicities get two names.
\<close>

theorem same_set_different_class_names:
  "set [''a'', ''b'', ''c'', ''d'', ''e'', ''f''] = set [''a'', ''a'', ''b'', ''c'', ''d'', ''e'', ''f''] \<and>
   remdups (sort [''a'', ''b'', ''c'', ''d'', ''e'', ''f'']) = remdups (sort [''a'', ''a'', ''b'', ''c'', ''d'', ''e'', ''f'']) \<and>
   input (preamble_rule (stub_externals True)
      (Chain [] [[''a'', ''b'', ''c'', ''d'', ''e'', ''f''], [''a'', ''a'', ''b'', ''c'', ''d'', ''e'', ''f'']] [] [] 0) new_session)
     = [[''@class1''], [''@class2'']]"
proof -
  have s1: "sort [''a'', ''b'', ''c'', ''d'', ''e'', ''f''] = [''a'', ''b'', ''c'', ''d'', ''e'', ''f'']"
    by code_simp
  have s2: "sort [''a'', ''a'', ''b'', ''c'', ''d'', ''e'', ''f''] = [''a'', ''a'', ''b'', ''c'', ''d'', ''e'', ''f'']"
    by code_simp
  show ?thesis
    by (simp add: eval_defs s1 s2)
qed

text \<open>
  C5, amended. Let a session start with its cache of class names in agreement with its
  table of named classes and its counter (a fresh session does), and let
  \<^verbatim>\<open>markRoutineUseInChains\<close> leave these three alone. Lower a chaining rule, then any
  rules, then another chaining rule. Every glyph class of more than 5 glyphs in the input,
  precontext or postcontext of the two rules is replaced in place with the one-element
  class \<^verbatim>\<open>"@" + name\<close>, where the name is the one that the session's cache holds for the
  sorted class, it is \<^verbatim>\<open>"class"\<close> followed by a number from 1 to the session counter, and
  the table of named classes holds under that name a class equal to it after sorting;
  classes of at most 5 glyphs are left alone. One naming, that of the cache
  at the end, accounts for every replacement: two long classes that are equal after sorting
  (the same glyphs with the same multiplicities) receive the same name, in one rule or in
  two rules lowered at any two points of the session.
\<close>

theorem long_classes_named_by_sorted_content:
  assumes mark: "\<forall>s. scratch_glyphclasses (markRoutineUseInChains E s) = scratch_glyphclasses s \<and>
              namedClasses (markRoutineUseInChains E s) = namedClasses s \<and>
              scratch_index (markRoutineUseInChains E s) = scratch_index s"
    and reg: "classes_registered ff"
  shows "\<exists>g. scratch_glyphclasses
                (preamble_session E r2 (session_after E between (preamble_session E r1 ff))) = Some g \<and>
           input (preamble_rule E r1 ff) = replaced (\<lambda>k. the (g k)) (input r1) \<and>
           precontext (preamble_rule E r1 ff) = replaced (\<lambda>k. the (g k)) (precontext r1) \<and>
           postcontext (preamble_rule E r1 ff) = replaced (\<lambda>k. the (g k)) (postcontext r1) \<and>
           input (preamble_rule E r2 (session_after E between (preamble_session E r1 ff))) =
             replaced (\<lambda>k. the (g k)) (input r2) \<and>
           precontext (preamble_rule E r2 (session_after E between (preamble_session E r1 ff))) =
             replaced (\<lambda>k. the (g k)) (precontext r2) \<and>
           postcontext (preamble_rule E r2 (session_after E between (preamble_session E r1 ff))) =
             replaced (\<lambda>k. the (g k)) (postcontext r2) \<and>
           (\<forall>gc\<in>set (input r1) \<union> set (precontext r1) \<union> set (postcontext r1) \<union>
                 set (input r2) \<union> set (precontext r2) \<union> set (postcontext r2).
              5 < length gc \<longrightarrow>
              (\<exists>n gc' j. g (sort gc) = Some n \<and>
                 namedClasses (preamble_session E r2 (session_after E between (preamble_session E r1 ff))) n
                   = Some gc' \<and>
                 sort gc' = sort gc \<and>
                 n = ''class'' @ str_int j \<and> 1 \<le> j \<and>
                 j \<le> counter (preamble_session E r2 (session_after E between (preamble_session E r1 ff)))))"
proof -
  let ?ff1 = "preamble_session E r1 ff"
  let ?ff2 = "session_after E between ?ff1"
  let ?ff3 = "preamble_session E r2 ?ff2"
  from mark have markg: "\<forall>s. scratch_glyphclasses (markRoutineUseInChains E s) = scratch_glyphclasses s"
    by simp
  from feaPreamble_via_loop [of ff r1 E] mark reg obtain g1 lks1 where
    d1: "\<forall>gc\<in>set (input r1) \<union> set (precontext r1) \<union> set (postcontext r1).
           5 < length gc \<longrightarrow> sort gc \<in> dom g1"
    and g1: "scratch_glyphclasses ?ff1 = Some g1"
    and reg1: "classes_registered ?ff1"
    and rule1: "preamble_rule E r1 ff =
            Chain (replaced (\<lambda>k. the (g1 k)) (precontext r1)) (replaced (\<lambda>k. the (g1 k)) (input r1))
              (replaced (\<lambda>k. the (g1 k)) (postcontext r1)) lks1 (chain_flags r1)"
    by auto
  from reg1 have reg2: "classes_registered ?ff2"
    by (rule session_after_registered [OF mark])
  from session_after_class_cache [OF markg, of ?ff1 between] g1
  have le12: "g1 \<subseteq>\<^sub>m class_cache ?ff2" by (simp add: class_cache_def)
  from feaPreamble_via_loop [of ?ff2 r2 E] mark reg2 obtain g2 lks2 where
    le2: "class_cache ?ff2 \<subseteq>\<^sub>m g2"
    and d2: "\<forall>gc\<in>set (input r2) \<union> set (precontext r2) \<union> set (postcontext r2).
           5 < length gc \<longrightarrow> sort gc \<in> dom g2"
    and g2: "scratch_glyphclasses ?ff3 = Some g2"
    and reg3: "classes_registered ?ff3"
    and rule2: "preamble_rule E r2 ?ff2 =
            Chain (replaced (\<lambda>k. the (g2 k)) (precontext r2)) (replaced (\<lambda>k. the (g2 k)) (input r2))
              (replaced (\<lambda>k. the (g2 k)) (postcontext r2)) lks2 (chain_flags r2)"
    by (auto simp: class_cache_def)
  from le12 le2 have le: "g1 \<subseteq>\<^sub>m g2" by (rule map_le_trans)
  have r1: "replaced (\<lambda>k. the (g2 k)) (input r1) = replaced (\<lambda>k. the (g1 k)) (input r1)"
    "replaced (\<lambda>k. the (g2 k)) (precontext r1) = replaced (\<lambda>k. the (g1 k)) (precontext r1)"
    "replaced (\<lambda>k. the (g2 k)) (postcontext r1) = replaced (\<lambda>k. the (g1 k)) (postcontext r1)"
    using d1 by (auto intro!: replaced_cong [OF le])
  have named: "\<exists>n gc' j. g2 (sort gc) = Some n \<and> namedClasses ?ff3 n = Some gc' \<and> sort gc' = sort gc \<and>
      n = ''class'' @ str_int j \<and> 1 \<le> j \<and> j \<le> counter ?ff3"
    if gc: "gc \<in> set (input r1) \<union> set (precontext r1) \<union> set (postcontext r1) \<union>
                 set (input r2) \<union> set (precontext r2) \<union> set (postcontext r2)"
      and long: "5 < length gc" for gc
  proof -
    from gc long d1 d2 map_le_implies_dom_le [OF le] have "sort gc \<in> dom g2" by blast
    then obtain n where n: "g2 (sort gc) = Some n" by auto
    with g2 have "class_cache ?ff3 (sort gc) = Some n" by (simp add: class_cache_def)
    with reg3 obtain gc' j where "namedClasses ?ff3 n = Some gc'" "sort gc' = sort gc"
      "1 \<le> j" "j \<le> counter ?ff3" "n = ''class'' @ str_int j"
      unfolding classes_registered_def by blast
    with n show ?thesis by blast
  qed
  from g2 r1 named show ?thesis
    by (intro exI [of _ g2]) (simp add: rule1 rule2)
qed

text \<open>
  The theorem at a class of six glyphs met in two rules in different orders, with a rule
  holding another long class lowered in between.
\<close>

theorem long_classes_named_by_sorted_content_witness:
  "input (preamble_rule (stub_externals True)
      (Chain [] [[''f'', ''e'', ''d'', ''c'', ''b'', ''a'']] [] [] 0) new_session) = [[''@class1'']] \<and>
   input (preamble_rule (stub_externals True)
      (Chain [] [[''a'', ''b'', ''c'', ''d'', ''e'', ''f''], [''x'']] [] [] 0)
      (session_after (stub_externals True) [Chain [[''u'', ''v'', ''w'', ''x'', ''y'', ''z'']] [[''a'']] [] [] 0]
        (preamble_session (stub_externals True) (Chain [] [[''f'', ''e'', ''d'', ''c'', ''b'', ''a'']] [] [] 0) new_session)))
     = [[''@class1''], [''x'']] \<and>
   namedClasses (preamble_session (stub_externals True)
      (Chain [] [[''a'', ''b'', ''c'', ''d'', ''e'', ''f''], [''x'']] [] [] 0)
      (session_after (stub_externals True) [Chain [[''u'', ''v'', ''w'', ''x'', ''y'', ''z'']] [[''a'']] [] [] 0]
        (preamble_session (stub_externals True) (Chain [] [[''f'', ''e'', ''d'', ''c'', ''b'', ''a'']] [] [] 0) new_session)))
      ''class1'' = Some [''f'', ''e'', ''d'', ''c'', ''b'', ''a'']"
proof -
  let ?E = "stub_externals True"
  let ?r1 = "Chain [] [[''f'', ''e'', ''d'', ''c'', ''b'', ''a'']] [] [] 0"
  let ?rb = "Chain [[''u'', ''v'', ''w'', ''x'', ''y'', ''z'']] [[''a'']] [] [] 0"
  let ?r2 = "Chain [] [[''a'', ''b'', ''c'', ''d'', ''e'', ''f''], [''x'']] [] [] 0"
  let ?ff3 = "preamble_session ?E ?r2 (session_after ?E [?rb] (preamble_session ?E ?r1 new_session))"
  have s1: "sort [''a'', ''b'', ''c'', ''d'', ''e'', ''f''] = [''a'', ''b'', ''c'', ''d'', ''e'', ''f'']"
    by code_simp
  have s2: "sort [''f'', ''e'', ''d'', ''c'', ''b'', ''a''] = [''a'', ''b'', ''c'', ''d'', ''e'', ''f'']"
    by code_simp
  have s3: "sort [''u'', ''v'', ''w'', ''x'', ''y'', ''z''] = [''u'', ''v'', ''w'', ''x'', ''y'', ''z'']"
    by code_simp
  have m: "\<forall>s. scratch_glyphclasses (markRoutineUseInChains ?E s) = scratch_glyphclasses s \<and>
              namedClasses (markRoutineUseInChains ?E s) = namedClasses s \<and>
              scratch_index (markRoutineUseInChains ?E s) = scratch_index s"
    by (simp add: stub_externals_def)
  have reg: "classes_registered new_session"
    by (simp add: classes_registered_def counter_def class_cache_def new_session_def)
  have 1: "input (preamble_rule ?E ?r1 new_session) = [[''@class1'']]"
    by (simp add: eval_defs s2)
  have 3: "namedClasses ?ff3 ''class1'' = Some [''f'', ''e'', ''d'', ''c'', ''b'', ''a'']"
    by (simp add: eval_defs session_after_def s1 s2 s3)
  from long_classes_named_by_sorted_content [OF m reg, of ?r2 "[?rb]" ?r1]
  obtain g where
    a: "input (preamble_rule ?E ?r1 new_session) = replaced (\<lambda>k. the (g k)) [[''f'', ''e'', ''d'', ''c'', ''b'', ''a'']]"
    and b: "input (preamble_rule ?E ?r2 (session_after ?E [?rb] (preamble_session ?E ?r1 new_session)))
          = replaced (\<lambda>k. the (g k)) [[''a'', ''b'', ''c'', ''d'', ''e'', ''f''], [''x'']]"
    by auto
  from a 1 have "the (g [''a'', ''b'', ''c'', ''d'', ''e'', ''f'']) = ''class1''"
    by (simp add: replaced_def s2)
  with b have "input (preamble_rule ?E ?r2 (session_after ?E [?rb] (preamble_session ?E ?r1 new_session)))
     = [[''@class1''], [''x'']]"
    by (simp add: replaced_def s1)
  with 1 3 show ?thesis by simp
qed

text \<open>
  C2 as stated fails: with an oracle that judges every pair incompatible nothing is cached,
  and the second lowering calls the oracle again on the same two groups.
\<close>

theorem oracle_asked_again_when_incompatible:
  "preamble_calls (stub_externals False) (Chain [] [[''a'']] [] [Some [Some routine_A, Some routine_B]] 0) new_session
     = [(routine_A, routine_B)] \<and>
   preamble_calls (stub_externals False) (Chain [] [[''b'']] [] [Some [Some routine_B, Some routine_A]] 0)
     (preamble_session (stub_externals False) (Chain [] [[''a'']] [] [Some [Some routine_A, Some routine_B]] 0) new_session)
     = [(routine_B, routine_A)]"
  by (simp add: eval_defs)

text \<open>
  C2, amended. Let \<^verbatim>\<open>markRoutineUseInChains\<close> leave the cache of merged groups alone.
  Suppose a lowering of a chaining rule completes without an exception, the rule has at
  some position exactly the two groups A and B, named a and b, and the oracle judges A
  and B compatible. Then, after any further lowerings in the session, the lowering of any
  chaining rule does not call the oracle on two groups named a and b, in either order; and
  if that lowering completes, a position which held two such groups holds the one group
  that the session cache has under \<^verbatim>\<open>a_b\<close> or \<^verbatim>\<open>b_a\<close>.
\<close>

theorem merged_pair_not_asked_again:
  assumes mark: "\<forall>s. scratch_synthesised_lookups (markRoutineUseInChains E s) = scratch_synthesised_lookups s"
    and first: "preamble_result E r1 ff = Inr rv1"
    and pos: "i < length (lookups r1)" "lookups r1 ! i = Some [Some A, Some B]"
    and names: "name A = Some a" "name B = Some b"
    and compat: "compatibleRules E A B"
    and XY: "(name X = Some a \<and> name Y = Some b) \<or> (name X = Some b \<and> name Y = Some a)"
  shows "(X, Y) \<notin> set (preamble_calls E r2 (session_after E between (preamble_session E r1 ff))) \<and>
         (\<forall>rv2 j. preamble_result E r2 (session_after E between (preamble_session E r1 ff)) = Inr rv2 \<longrightarrow>
            j < length (lookups r2) \<longrightarrow> lookups r2 ! j = Some [Some X, Some Y] \<longrightarrow>
            (\<exists>s c. scratch_synthesised_lookups
                      (preamble_session E r2 (session_after E between (preamble_session E r1 ff))) = Some c \<and>
                   lookups (preamble_rule E r2 (session_after E between (preamble_session E r1 ff))) ! j
                     = Some [Some s] \<and>
                   (c (a @ ''_'' @ b) = Some s \<or> c (b @ ''_'' @ a) = Some s)))"
proof -
  let ?ff1 = "preamble_session E r1 ff"
  let ?ff2 = "session_after E between ?ff1"
  obtain g ff5 c5 err lks ff6 rv calls where
    lp: "feaPreamble_loop E (lookups r1) ff5 = (err, lks, ff6, rv, calls)"
    and s5: "scratch_synthesised_lookups ff5 = Some c5"
    and res: "preamble_result E r1 ff = (case err of Some e \<Rightarrow> Inl e | None \<Rightarrow> Inr rv)"
    and ses: "preamble_session E r1 ff = ff6"
    using feaPreamble_via_loop [of ff r1 E] by blast
  from res first have err: "err = None" by (cases err) auto
  from loop_cache [OF lp s5] obtain c6 where c6: "scratch_synthesised_lookups ff6 = Some c6" by blast
  from loop_hit [OF lp [unfolded err] s5 c6 pos names] compat
  have cached1: "c6 (a @ ''_'' @ b) \<noteq> None \<or> c6 (b @ ''_'' @ a) \<noteq> None" by auto
  from session_after_merged_cache [OF mark, of ?ff1 c6 between] ses c6 obtain c7 where
    c7: "scratch_synthesised_lookups ?ff2 = Some c7" "c6 \<subseteq>\<^sub>m c7" by auto
  from cached1 c7(2) have cached: "c7 (a @ ''_'' @ b) \<noteq> None \<or> c7 (b @ ''_'' @ a) \<noteq> None"
    by (auto dest: map_le_Some)
  obtain g' ff5' c5' err' lks' ff6' rv' calls' where
    lp': "feaPreamble_loop E (lookups r2) ff5' = (err', lks', ff6', rv', calls')"
    and s5': "scratch_synthesised_lookups ff5' = Some c5'"
    and c5': "(\<forall>s. scratch_synthesised_lookups (markRoutineUseInChains E s) = scratch_synthesised_lookups s) \<longrightarrow>
           (case scratch_synthesised_lookups ?ff2 of None \<Rightarrow> Map.empty | Some c \<Rightarrow> c) = c5'"
    and res': "preamble_result E r2 ?ff2 = (case err' of Some e \<Rightarrow> Inl e | None \<Rightarrow> Inr rv')"
    and rule': "preamble_rule E r2 ?ff2 =
            Chain (replaced (\<lambda>k. the (g' k)) (precontext r2)) (replaced (\<lambda>k. the (g' k)) (input r2))
              (replaced (\<lambda>k. the (g' k)) (postcontext r2)) lks' (chain_flags r2)"
    and ses': "preamble_session E r2 ?ff2 = ff6'"
    and calls': "preamble_calls E r2 ?ff2 = calls'"
    using feaPreamble_via_loop [of ?ff2 r2 E] by blast
  from c5' mark c7(1) have eq: "c5' = c7" by simp
  have no_call: "(X, Y) \<notin> set calls'"
  proof
    assume in_calls: "(X, Y) \<in> set calls'"
    from XY show False
    proof
      assume "name X = Some a \<and> name Y = Some b"
      with loop_calls [OF lp' s5' in_calls, of a b] cached eq show False by auto
    next
      assume "name X = Some b \<and> name Y = Some a"
      with loop_calls [OF lp' s5' in_calls, of b a] cached eq show False by auto
    qed
  qed
  from loop_cache [OF lp' s5'] obtain c6' where c6': "scratch_synthesised_lookups ff6' = Some c6'"
    by blast
  have hit: "\<exists>s c. scratch_synthesised_lookups (preamble_session E r2 ?ff2) = Some c \<and>
                   lookups (preamble_rule E r2 ?ff2) ! j = Some [Some s] \<and>
                   (c (a @ ''_'' @ b) = Some s \<or> c (b @ ''_'' @ a) = Some s)"
    if r: "preamble_result E r2 ?ff2 = Inr rv2" and j: "j < length (lookups r2)"
      and at: "lookups r2 ! j = Some [Some X, Some Y]" for rv2 j
  proof -
    from r res' have err': "err' = None" by (cases err') auto
    from XY show ?thesis
    proof
      assume n: "name X = Some a \<and> name Y = Some b"
      from loop_hit [OF lp' [unfolded err'] s5' c6' j at, of a b] n cached eq
      show ?thesis by (auto simp: ses' rule' c6')
    next
      assume n: "name X = Some b \<and> name Y = Some a"
      from loop_hit [OF lp' [unfolded err'] s5' c6' j at, of b a] n cached eq
      show ?thesis by (auto simp: ses' rule' c6')
    qed
  qed
  from no_call hit show ?thesis by (simp add: calls')
qed

text \<open>
  The theorem at the groups A and B, met as A,B by one rule and as B,A by a later one, with
  a rule that merges A and C lowered in between. The merged group is serialised by
  \<open>Routine_asFeaAST\<close>, which sets its flags.
\<close>

theorem merged_pair_not_asked_again_witness:
  "preamble_result (stub_externals True) (Chain [] [[''a'']] [] [Some [Some routine_A, Some routine_B]] 0) new_session
     = Inr [LookupBlock ''A_B'' [RuleStatement (Substitution 1 0), RuleStatement (Substitution 1 0)]] \<and>
   preamble_calls (stub_externals True) (Chain [] [[''a'']] [] [Some [Some routine_A, Some routine_B]] 0) new_session
     = [(routine_A, routine_B)] \<and>
   (routine_B, routine_A) \<notin> set (preamble_calls (stub_externals True)
     (Chain [] [[''b'']] [] [Some [Some routine_B, Some routine_A]] 0)
     (session_after (stub_externals True) [Chain [] [[''c'']] [] [Some [Some routine_A, Some routine_C]] 0]
       (preamble_session (stub_externals True) (Chain [] [[''a'']] [] [Some [Some routine_A, Some routine_B]] 0) new_session))) \<and>
   lookups (preamble_rule (stub_externals True) (Chain [] [[''b'']] [] [Some [Some routine_B, Some routine_A]] 0)
     (session_after (stub_externals True) [Chain [] [[''c'']] [] [Some [Some routine_A, Some routine_C]] 0]
       (preamble_session (stub_externals True) (Chain [] [[''a'']] [] [Some [Some routine_A, Some routine_B]] 0) new_session)))
     = [Some [Some (Routine (Some ''A_B'') [Substitution 1 0, Substitution 1 0] (Some 0) None [])]]"
proof -
  let ?E = "stub_externals True"
  let ?r1 = "Chain [] [[''a'']] [] [Some [Some routine_A, Some routine_B]] 0"
  let ?rb = "Chain [] [[''c'']] [] [Some [Some routine_A, Some routine_C]] 0"
  let ?r2 = "Chain [] [[''b'']] [] [Some [Some routine_B, Some routine_A]] 0"
  let ?ff2 = "session_after ?E [?rb] (preamble_session ?E ?r1 new_session)"
  have ser: "Routine_asFeaAST (\<lambda>x. Inr (RuleStatement x)) (Routine (Some n) [Substitution 1 0, Substitution 1 0] None None [])
    = (Inr (LookupBlock n [RuleStatement (Substitution 1 0), RuleStatement (Substitution 1 0)]),
       Routine (Some n) [Substitution 1 0, Substitution 1 0] (Some 0) None [], [])"
    if "n \<noteq> []" for n
    using that
    by (simp add: Routine_asFeaAST.simps arrange_def arrange_by_type_def arrange_by_lookup_type_def
      arrange_by_language_def arrange_by_flags_def bucket_by_def py_eq_def set_flags_def set_rules_def
      leaf_statements_def)
  have 1: "preamble_result ?E ?r1 new_session
     = Inr [LookupBlock ''A_B'' [RuleStatement (Substitution 1 0), RuleStatement (Substitution 1 0)]]"
    by (simp add: eval_defs ser)
  have 2: "preamble_calls ?E ?r1 new_session = [(routine_A, routine_B)]"
    by (simp add: eval_defs ser)
  have 3: "\<forall>s. scratch_synthesised_lookups (markRoutineUseInChains ?E s) = scratch_synthesised_lookups s"
    by (simp add: stub_externals_def)
  have 4: "compatibleRules ?E routine_A routine_B"
    by (simp add: stub_externals_def)
  have 6: "lookups (preamble_rule ?E ?r2 ?ff2)
     = [Some [Some (Routine (Some ''A_B'') [Substitution 1 0, Substitution 1 0] (Some 0) None [])]]"
    by (simp add: eval_defs session_after_def ser)
  from merged_pair_not_asked_again [OF 3 1, of 0 routine_A routine_B "''A''" "''B''" routine_B routine_A
      ?r2 "[?rb]"] 4
  have "(routine_B, routine_A) \<notin> set (preamble_calls ?E ?r2 ?ff2)"
    by (simp add: routine_A_def routine_B_def)
  with 1 2 6 show ?thesis by simp
qed




text \<open>
  C10. \<open>asFeaAST\<close> changes the rule it lowers. When some entry of the lookups is present
  and no position has more than one group, every entry is rewritten by
  \<^verbatim>\<open>x or [None]\<close>, so each absent entry becomes the one-element list \<^verbatim>\<open>[None]\<close>. When
  some position has more than one group, the lookups are reset to the empty list; the call
  gives the placeholder comment (or raises), and a second call on the rule gives an ignore
  statement instead, so the function is not idempotent.
\<close>

theorem asFeaAST_rewrites_lookups:
  assumes "list_ex (\<lambda>x. x \<noteq> None) (lookups self)"
  shows "(\<not> list_ex more_than_one (lookups self) \<longrightarrow>
            lookups (lowered_rule self) = map or_none (lookups self) \<and>
            (\<forall>i<length (lookups self). lookups self ! i = None \<longrightarrow>
               lookups (lowered_rule self) ! i = Some [None]))
       \<and> (list_ex more_than_one (lookups self) \<longrightarrow>
            lookups (lowered_rule self) = [] \<and>
            (lowered_stmt self = Inr (Comment ''# Unparsing failed'') \<or> lowered_stmt self = Inl TypeError) \<and>
            lowered_stmt (lowered_rule self) = Inr (ignore_stmt (lowered_rule self)) \<and>
            lowered_stmt (lowered_rule self) \<noteq> lowered_stmt self)"
proof -
  from assms have ne: "0 < length (lookups self)" by (auto simp: list_ex_iff)
  have single: "lookups (lowered_rule self) = map or_none (lookups self) \<and>
            (\<forall>i<length (lookups self). lookups self ! i = None \<longrightarrow>
               lookups (lowered_rule self) ! i = Some [None])"
    if "\<not> list_ex more_than_one (lookups self)"
    using that assms ne by (simp add: lowered_rule_def asFeaAST_def set_lookups_def Let_def)
  have multi: "lookups (lowered_rule self) = [] \<and>
            (lowered_stmt self = Inr (Comment ''# Unparsing failed'') \<or> lowered_stmt self = Inl TypeError) \<and>
            lowered_stmt (lowered_rule self) = Inr (ignore_stmt (lowered_rule self)) \<and>
            lowered_stmt (lowered_rule self) \<noteq> lowered_stmt self"
    if m: "list_ex more_than_one (lookups self)"
  proof -
    have as: "asFeaAST self = chain_complex self"
      using m assms ne by (simp add: asFeaAST_def Let_def)
    have 1: "lookups (lowered_rule self) = []"
      by (simp add: lowered_rule_def as chain_complex_def set_lookups_def Let_def split: sum.splits)
    have 2: "lowered_stmt self = Inr (Comment ''# Unparsing failed'') \<or> lowered_stmt self = Inl TypeError"
      using names_only_cases [of "lookups self"]
      by (auto simp: lowered_stmt_def as chain_complex_def Let_def)
    from 1 have 3: "lowered_stmt (lowered_rule self) = Inr (ignore_stmt (lowered_rule self))"
      by (simp add: lowered_stmt_def asFeaAST_no_lookups)
    from 2 3 have "lowered_stmt (lowered_rule self) \<noteq> lowered_stmt self"
      by (auto simp: ignore_stmt_def)
    with 1 2 3 show ?thesis by simp
  qed
  from single multi show ?thesis by blast
qed

text \<open>The theorem at a rule of each kind.\<close>

theorem asFeaAST_rewrites_lookups_witness:
  "lookups (lowered_rule (Chain [] [[''a''], [''b'']] [] [None, Some [Some routine_A]] 0)) =
      [Some [None], Some [Some routine_A]] \<and>
   lowered_stmt (Chain [] [[''a''], [''b'']] [] [None, Some [Some routine_A]] 0) =
      Inr (ChainContextSubstStatement [] [GlyphName ''a'', GlyphName ''b''] [] [None, Some routine_A]) \<and>
   lookups (lowered_rule (Chain [] [[''a'']] [] [Some [Some routine_A, Some routine_B, Some routine_C]] 0)) = [] \<and>
   lowered_stmt (Chain [] [[''a'']] [] [Some [Some routine_A, Some routine_B, Some routine_C]] 0) =
      Inr (Comment ''# Unparsing failed'') \<and>
   lowered_stmt (lowered_rule (Chain [] [[''a'']] [] [Some [Some routine_A, Some routine_B, Some routine_C]] 0)) =
      Inr (IgnoreSubstStatement [[[], [GlyphName ''a''], []]])"
  using asFeaAST_rewrites_lookups [of "Chain [] [[''a''], [''b'']] [] [None, Some [Some routine_A]] 0"]
    asFeaAST_rewrites_lookups [of "Chain [] [[''a'']] [] [Some [Some routine_A, Some routine_B, Some routine_C]] 0"]
  by (simp add: lowered_stmt_def lowered_rule_def asFeaAST_def chain_complex_def set_lookups_def
      ignore_stmt_def glyphref_def routine_A_def routine_B_def routine_C_def Let_def)

text \<open>
  C3. The claim: a chaining rule that still has a position with more than one group is
  lowered by \<open>asFeaAST\<close> to a placeholder comment, with a warning, without raising. The
  fallback iterates over every entry of the former lookups, and an absent entry at another
  position makes it raise \<^verbatim>\<open>TypeError\<close> after the warning: here for a rule with no
  lookup at the first position and three groups at the second, and for one with two groups
  that the oracle judges overlapping (which \<open>feaPreamble\<close> leaves as they are).
\<close>

theorem asFeaAST_fallback_raises_on_absent_entry:
  "asFeaAST (Chain [] [[''a''], [''b'']] [] [None, Some [Some routine_A, Some routine_B, Some routine_C]] 0) =
     (Inl TypeError, Chain [] [[''a''], [''b'']] [] [] 0,
      [''Can't currently express multiple lookups per position in AFDKO'']) \<and>
   preamble_rule (stub_externals False) (Chain [] [[''a''], [''b'']] [] [None, Some [Some routine_A, Some routine_B]] 0) new_session =
     Chain [] [[''a''], [''b'']] [] [None, Some [Some routine_A, Some routine_B]] 0 \<and>
   asFeaAST (Chain [] [[''a''], [''b'']] [] [None, Some [Some routine_A, Some routine_B]] 0) =
     (Inl TypeError, Chain [] [[''a''], [''b'']] [] [] 0,
      [''Can't currently express multiple lookups per position in AFDKO''])"
  by (simp add: asFeaAST_def chain_complex_def eval_defs)

end
